theory Spec2Isabelle
  imports Complex_Main "HOL-Library.Word" "HOL-Library.Log_Nat"
begin

unbundle bit_operations_syntax

section \<open>The loopback and recording sources of Audio.cpp\<close>

subsection \<open>Data\<close>

text \<open>
  A \<open>QByteArray\<close> is a list of bytes. The render device \<open>g.ao\<close> is seen by the sources
  only through \<open>addFrameToBuffer(user, data, seq, type)\<close>; the device is modelled by the
  list of the calls it has received, oldest first, and \<open>g.ao\<close> by an option of that list
  (\<open>None\<close> is the null pointer). The user argument is the address \<open>this\<close>, a number here.
\<close>

type_synonym QByteArray = "8 word list"

datatype call = AddFrameToBuffer nat QByteArray int nat

text \<open>
  \<open>PacketDataStream\<close> is not part of Audio.cpp. Its use in \<open>fetchFrames\<close> and
  \<open>RecordUser::addFrame\<close> is one fixed sequence on a fresh stream over the packet:
  \<open>next()\<close>, then \<open>>> iSeq\<close>, then \<open>dataBlock(left())\<close>. The three results are taken
  as a parameter of the model: a function from the packet to (the \<open>quint64\<close> returned by
  \<open>next()\<close>, the \<open>int\<close> read into \<open>iSeq\<close>, the remaining bytes).
\<close>

type_synonym PacketDataStream = "QByteArray \<Rightarrow> 64 word \<times> int \<times> QByteArray"

text \<open>
  \<open>QElapsedTimer\<close>: a timer is the clock value (milliseconds, \<open>qint64\<close>) at which it was
  last started; \<open>elapsed()\<close> at clock \<open>c\<close> is \<open>c - start\<close>, \<open>restart()\<close> stores \<open>c\<close>.
  The clock is an input of every operation, one reading per call of \<open>elapsed()\<close> or
  \<open>restart()\<close> in the source.

  The state: the globals \<open>g.ao\<close>, \<open>g.s.dPacketLoss\<close>, \<open>g.s.dMaxPacketDelay\<close>, the fields
  of the \<open>LoopUser\<close> that the functions touch, and the lines \<open>qWarning\<close> has printed.
  A finite \<open>double\<close> is the real number it stands for; every operation that yields a
  double rounds its exact result (see \<open>to_double\<close> below). The two settings are finite
  doubles (a setting declared \<open>float\<close> is converted to \<open>double\<close> without rounding).
  Keys of \<open>qmPackets\<close> are \<open>float\<close> values: a finite one is the real number it stands
  for, and the conversion of a double beyond the range of \<open>float\<close> gives an infinity.
\<close>

datatype float_value = MinusInf | Finite real | PlusInf

instantiation float_value :: linorder
begin

fun less_eq_float_value :: "float_value \<Rightarrow> float_value \<Rightarrow> bool" where
  "less_eq_float_value MinusInf y = True"
| "less_eq_float_value (Finite a) MinusInf = False"
| "less_eq_float_value (Finite a) (Finite b) = (a \<le> b)"
| "less_eq_float_value (Finite a) PlusInf = True"
| "less_eq_float_value PlusInf MinusInf = False"
| "less_eq_float_value PlusInf (Finite b) = False"
| "less_eq_float_value PlusInf PlusInf = True"

definition less_float_value :: "float_value \<Rightarrow> float_value \<Rightarrow> bool" where
  "less_float_value x y = (x \<le> y \<and> \<not> y \<le> x)"

instance
proof
  fix x y z :: float_value
  show "(x < y) = (x \<le> y \<and> \<not> y \<le> x)" by (rule less_float_value_def)
  show "x \<le> x" by (cases x) simp_all
  show "x \<le> y \<Longrightarrow> y \<le> z \<Longrightarrow> x \<le> z" by (cases x; cases y; cases z) simp_all
  show "x \<le> y \<Longrightarrow> y \<le> x \<Longrightarrow> x = y" by (cases x; cases y) simp_all
  show "x \<le> y \<or> y \<le> x" by (cases x; cases y) auto
qed

end

record world =
  g_ao :: "call list option"
  dPacketLoss :: real
  dMaxPacketDelay :: real
  qmPackets :: "(float_value \<times> QByteArray) list"
  qetTicker :: int
  qetLastFetch :: int
  qWarning :: "string list"

definition elapsed :: "int \<Rightarrow> int \<Rightarrow> int" where
  "elapsed clock start = clock - start"

subsection \<open>QMultiMap\<close>

text \<open>
  \<open>QMultiMap<float, QByteArray>\<close> is kept as the list of its entries in iteration order,
  ascending by key. \<open>insert\<close> puts the new entry in front of the entries with an equal
  key (Qt iterates equal keys from the most recently inserted to the least recently
  inserted).
\<close>

fun mm_insert :: "'k::linorder \<Rightarrow> 'v \<Rightarrow> ('k \<times> 'v) list \<Rightarrow> ('k \<times> 'v) list" where
  "mm_insert k v [] = [(k, v)]"
| "mm_insert k v ((k', v') # xs) =
     (if k' < k then (k', v') # mm_insert k v xs else (k, v) # (k', v') # xs)"

subsection \<open>Doubles and floats\<close>

text \<open>
  IEEE 754 arithmetic in the default rounding mode, each operation rounded to its
  type (as on x86-64 and ARM64). \<open>round_to p emin x\<close> is the real number \<open>x\<close> rounded to
  the nearest value \<open>m * 2^e\<close> with a significand \<open>m\<close> of at most \<open>p\<close> bits and an exponent
  \<open>e\<close> of at least \<open>emin\<close>, ties to the even significand; below the normal range the
  exponent stays at \<open>emin\<close> (subnormal numbers). \<open>rne\<close> rounds to the nearest integer,
  ties to even; \<open>ilog2 y\<close> is the exponent of the leading bit of \<open>y > 0\<close>, that is the
  \<open>e\<close> with \<open>2^e \<le> y < 2^(e+1)\<close>.

  \<open>to_double\<close> is the rounding of a result to \<open>double\<close> (53 bits, least exponent -1074):
  it stands at every place where the source converts an integer to \<open>double\<close> or computes
  a \<open>double\<close>. The doubles of \<open>addFrame\<close> stay below the largest double (a quotient of
  at most 1 times a setting, plus a 64-bit count), so no infinite double arises.

  \<open>static_cast_float\<close> is \<open>static_cast<float>\<close> of a double (24 bits, least exponent
  -149): a value that rounds to \<open>2^128\<close> or beyond in magnitude becomes an infinity.
\<close>

definition rne :: "real \<Rightarrow> int" where
  "rne x = (let f = \<lfloor>x\<rfloor>; d = x - of_int f
            in if d < 1/2 then f else if 1/2 < d then f + 1
               else if even f then f else f + 1)"

definition ilog2 :: "real \<Rightarrow> int" where
  "ilog2 y = (if 1 \<le> y then int (floorlog 2 (nat \<lfloor>y\<rfloor>)) - 1
              else - int (floorlog 2 (nat \<lceil>1 / y\<rceil> - 1)))"

definition round_to :: "nat \<Rightarrow> int \<Rightarrow> real \<Rightarrow> real" where
  "round_to p emin x =
     (if x = 0 then 0
      else let e = max (ilog2 \<bar>x\<bar> - (int p - 1)) emin
           in sgn x * of_int (rne (\<bar>x\<bar> / 2 powi e)) * 2 powi e)"

definition to_double :: "real \<Rightarrow> real" where
  "to_double x = round_to 53 (- 1074) x"

definition static_cast_float :: "real \<Rightarrow> float_value" where
  "static_cast_float x =
     (let y = round_to 24 (- 149) x
      in if 2 ^ 128 \<le> y then PlusInf
         else if y \<le> - (2 ^ 128) then MinusInf
         else Finite y)"

subsection \<open>LoopUser::addFrame\<close>

text \<open>
  \<open>DOUBLE_RAND\<close> is \<open>rand()/static_cast<double>(RAND_MAX)\<close>. \<open>RAND_MAX\<close> is a constant of
  the C library and a parameter here; the value returned by \<open>rand()\<close> is an input, an
  integer from 0 to \<open>RAND_MAX\<close>, both ends included. Both integers are converted to
  \<open>double\<close> and the quotient is a \<open>double\<close>.
\<close>

definition DOUBLE_RAND :: "nat \<Rightarrow> nat \<Rightarrow> real" where
  "DOUBLE_RAND RAND_MAX rand = to_double (to_double (real rand) / to_double (real RAND_MAX))"

text \<open>
  What one call of \<open>LoopUser::addFrame\<close> reads from outside: the two values of \<open>rand()\<close>
  (the second is consumed only when \<open>restart\<close> is false) and the clock at the three
  timer reads, in the order of the source: \<open>qetLastFetch.elapsed()\<close> under the lock,
  \<open>qetTicker.elapsed()\<close>, and \<open>qetLastFetch.elapsed()\<close> of the restart check.
\<close>

record addFrame_env =
  rand_loss :: nat
  rand_delay :: nat
  clock_restart :: int
  clock_ticker :: int
  clock_recheck :: int

text \<open>
  \<open>(packet.at(0) >> 5) & 0x7\<close>: the \<open>char\<close> is promoted to \<open>int\<close> with its sign, shifted
  right arithmetically and masked.
\<close>

definition msgType_of_char :: "8 word \<Rightarrow> nat" where
  "msgType_of_char c = unat (signed_drop_bit 5 (scast c :: 32 word) AND 7)"

text \<open>\<open>packet.at(0)\<close> on an empty array is outside the array: \<open>QByteArray::at\<close> asserts.\<close>

datatype error = AtOutOfRange

text \<open>
  The function has three parts: the loss test; the block under \<open>QMutexLocker l(&qmLock)\<close>,
  which schedules the packet; and the restart check, which runs after the lock has been
  released. They are three definitions, so that a statement can place a \<open>fetchFrames\<close> of
  the consuming thread between the release of the lock and the restart check.
  \<open>LoopUser_addFrame\<close> is the call with nothing in between.
\<close>

definition LoopUser_addFrame_locked :: "nat \<Rightarrow> addFrame_env \<Rightarrow> QByteArray \<Rightarrow> world \<Rightarrow> world" where
  "LoopUser_addFrame_locked RAND_MAX env packet w =
     (let restart = (elapsed (clock_restart env) (qetLastFetch w) > 100);
          time = to_double (real_of_int (elapsed (clock_ticker env) (qetTicker w)));
          r = (if restart then 0
               else to_double (DOUBLE_RAND RAND_MAX (rand_delay env) * dMaxPacketDelay w))
      in w\<lparr>qmPackets :=
             mm_insert (static_cast_float (to_double (time + r))) packet (qmPackets w)\<rparr>)"

definition LoopUser_addFrame_restart_check ::
  "nat \<Rightarrow> addFrame_env \<Rightarrow> QByteArray \<Rightarrow> world \<Rightarrow> error + world" where
  "LoopUser_addFrame_restart_check this env packet w =
     (if elapsed (clock_recheck env) (qetLastFetch w) > 100
      then (case g_ao w of
              None \<Rightarrow> Inr w
            | Some calls \<Rightarrow>
                (case packet of
                   [] \<Rightarrow> Inl AtOutOfRange
                 | c # _ \<Rightarrow>
                     Inr (w\<lparr>g_ao := Some (calls @
                            [AddFrameToBuffer this [] 0 (msgType_of_char c)])\<rparr>)))
      else Inr w)"

definition LoopUser_addFrame ::
  "nat \<Rightarrow> nat \<Rightarrow> addFrame_env \<Rightarrow> QByteArray \<Rightarrow> world \<Rightarrow> error + world" where
  "LoopUser_addFrame RAND_MAX this env packet w =
     (if DOUBLE_RAND RAND_MAX (rand_loss env) < dPacketLoss w
      then Inr (w\<lparr>qWarning := qWarning w @ [''Drop'']\<rparr>)
      else LoopUser_addFrame_restart_check this env packet
             (LoopUser_addFrame_locked RAND_MAX env packet w))"

subsection \<open>LoopUser::fetchFrames and RecordUser::addFrame\<close>

text \<open>
  The body shared by the drain loop and by \<open>RecordUser::addFrame\<close>: read the packet
  through the stream, put the flags byte back in front of the rest, take the message
  type from bits 5 to 7 of the flags, and call \<open>addFrameToBuffer\<close>.
\<close>

definition deliver :: "PacketDataStream \<Rightarrow> nat \<Rightarrow> QByteArray \<Rightarrow> call" where
  "deliver pds this data =
     (case pds data of
        (nxt, iSeq, rest) \<Rightarrow>
          let msgFlags = (ucast nxt :: 32 word);
              qba = (ucast msgFlags :: 8 word) # rest;
              msgType = unat (drop_bit 5 msgFlags AND 7)
          in AddFrameToBuffer this qba iSeq msgType)"

text \<open>
  The \<open>while\<close> loop of \<open>fetchFrames\<close>: from the first entry on, stop at an entry whose
  key is greater than \<open>cmp\<close> (the \<open>float\<close> key is compared as a \<open>double\<close>, which is
  exact), otherwise deliver its packet and erase it. The result is the entries left and
  the calls received by the device. \<open>cmp\<close> is \<open>qetTicker.elapsed()\<close> converted to
  \<open>double\<close>.
\<close>

fun drain ::
  "PacketDataStream \<Rightarrow> nat \<Rightarrow> real \<Rightarrow> (float_value \<times> QByteArray) list \<Rightarrow> call list
     \<Rightarrow> (float_value \<times> QByteArray) list \<times> call list" where
  "drain pds this cmp [] calls = ([], calls)"
| "drain pds this cmp ((k, data) # rest) calls =
     (if k > Finite cmp then ((k, data) # rest, calls)
      else drain pds this cmp rest (calls @ [deliver pds this data]))"

text \<open>
  The clock is read twice by \<open>fetchFrames\<close>: by \<open>qetTicker.elapsed()\<close> before the loop
  and by \<open>qetLastFetch.restart()\<close> after it.
\<close>

record fetchFrames_env =
  clock_cmp :: int
  clock_fetched :: int

definition LoopUser_fetchFrames ::
  "PacketDataStream \<Rightarrow> nat \<Rightarrow> fetchFrames_env \<Rightarrow> world \<Rightarrow> world" where
  "LoopUser_fetchFrames pds this env w =
     (case g_ao w of
        None \<Rightarrow> w
      | Some calls \<Rightarrow>
          if qmPackets w = [] then w
          else
            let cmp = to_double (real_of_int (elapsed (clock_cmp env) (qetTicker w)))
            in (case drain pds this cmp (qmPackets w) calls of
                  (left, calls') \<Rightarrow>
                    w\<lparr>qmPackets := left, g_ao := Some calls',
                      qetLastFetch := clock_fetched env\<rparr>))"

definition RecordUser_addFrame :: "PacketDataStream \<Rightarrow> nat \<Rightarrow> QByteArray \<Rightarrow> world \<Rightarrow> world" where
  "RecordUser_addFrame pds this packet w =
     (case g_ao w of
        None \<Rightarrow> w
      | Some calls \<Rightarrow> w\<lparr>g_ao := Some (calls @ [deliver pds this packet])\<rparr>)"

subsection \<open>Concrete inputs for the examples\<close>

text \<open>
  A stream reader for the examples: the first byte is returned by \<open>next()\<close>, the second
  byte is the sequence number, the rest is the data block.
\<close>

definition sample_pds :: PacketDataStream where
  "sample_pds data =
     (case data of
        [] \<Rightarrow> (0, 0, [])
      | [b] \<Rightarrow> (ucast b, 0, [])
      | b # s # rest \<Rightarrow> (ucast b, uint s, rest))"

text \<open>
  The state right after the constructor \<open>LoopUser::LoopUser()\<close> has run at the given
  clock value (\<open>qetTicker.start()\<close>, \<open>qetLastFetch.start()\<close>, no packet), with the given
  render device and settings.
\<close>

definition LoopUser_ctor :: "call list option \<Rightarrow> real \<Rightarrow> real \<Rightarrow> int \<Rightarrow> world" where
  "LoopUser_ctor ao loss delay clock =
     \<lparr>g_ao = ao, dPacketLoss = loss, dMaxPacketDelay = delay, qmPackets = [],
      qetTicker = clock, qetLastFetch = clock, qWarning = []\<rparr>"

section \<open>Starting and stopping the devices (Audio::start*, Audio::stop*)\<close>

subsection \<open>Thread priorities\<close>

text \<open>
  \<open>QThread::Priority\<close> is an enumeration of Qt. Its enumerators are listed in the order
  of their values, from \<open>IdlePriority = 0\<close> to \<open>InheritPriority = 7\<close>; from
  \<open>IdlePriority\<close> to \<open>TimeCriticalPriority\<close> a greater value is a thread scheduled more
  often. \<open>priority_rank\<close> is the value of the enumerator.
\<close>

datatype Priority =
    IdlePriority | LowestPriority | LowPriority | NormalPriority
  | HighPriority | HighestPriority | TimeCriticalPriority | InheritPriority

fun priority_rank :: "Priority \<Rightarrow> nat" where
  "priority_rank IdlePriority = 0"
| "priority_rank LowestPriority = 1"
| "priority_rank LowPriority = 2"
| "priority_rank NormalPriority = 3"
| "priority_rank HighPriority = 4"
| "priority_rank HighestPriority = 5"
| "priority_rank TimeCriticalPriority = 6"
| "priority_rank InheritPriority = 7"

subsection \<open>Shared pointers\<close>

text \<open>
  The sources above use \<open>g.ao\<close> as the device that receives frames. The start and stop
  functions use \<open>g.ai\<close> and \<open>g.ao\<close> as counted pointers, and this second state keeps what
  they touch: which instance a pointer names and how often the instance is referenced.

  \<open>g.ai\<close> and \<open>g.ao\<close> are shared pointers (\<open>AudioInputPtr\<close>, \<open>AudioOutputPtr\<close>). A device
  instance is named by its direction and a number; a pointer is an option of the number
  (\<open>None\<close> is the null pointer). The state holds
  \<^item> \<open>g_ptr\<close>: the two global pointers \<open>g.ai\<close> (\<open>Input\<close>) and \<open>g.ao\<close> (\<open>Output\<close>);
  \<^item> \<open>use_count\<close>: the reference count of every instance;
  \<^item> \<open>elsewhere\<close>: how many of these references are held by threads other than the
    one that runs the stop function (audio callbacks that copied \<open>g.ai\<close> or \<open>g.ao\<close>);
  \<^item> \<open>destroyed\<close>: the destructors that have run, in order, each with the thread it ran on;
  \<^item> \<open>started\<close>: the calls of \<open>start(priority)\<close>, in order;
  \<^item> \<open>local_ptr\<close>: the local variables \<open>ai\<close> and \<open>ao\<close> of the stop function that runs.

  \<open>copy_ptr\<close> is the copy of a pointer (one more reference); \<open>reset_ptr\<close> is \<open>reset()\<close>
  or the end of a pointer's life: one reference less, and the destructor of the instance
  runs on that thread when it was the last one.
\<close>

datatype direction = Input | Output

datatype thread = Caller | Callback

record lifecycle =
  g_ptr :: "direction \<Rightarrow> nat option"
  use_count :: "direction \<times> nat \<Rightarrow> nat"
  elsewhere :: "direction \<times> nat \<Rightarrow> nat"
  destroyed :: "(direction \<times> nat \<times> thread) list"
  started :: "(direction \<times> nat \<times> Priority) list"
  local_ptr :: "direction \<Rightarrow> nat option"

definition copy_ptr :: "direction \<Rightarrow> nat option \<Rightarrow> lifecycle \<Rightarrow> lifecycle" where
  "copy_ptr d p s =
     (case p of
        None \<Rightarrow> s
      | Some x \<Rightarrow> s\<lparr>use_count := (use_count s)((d, x) := use_count s (d, x) + 1)\<rparr>)"

definition reset_ptr :: "thread \<Rightarrow> direction \<Rightarrow> nat option \<Rightarrow> lifecycle \<Rightarrow> lifecycle" where
  "reset_ptr t d p s =
     (case p of
        None \<Rightarrow> s
      | Some x \<Rightarrow>
          let n = use_count s (d, x) - 1
          in s\<lparr>use_count := (use_count s)((d, x) := n),
               destroyed := (if n = 0 then destroyed s @ [(d, x, t)] else destroyed s)\<rparr>)"

subsection \<open>Audio::stopOutput and Audio::stopInput\<close>

text \<open>
  The two functions are the same text, on \<open>g.ao\<close> and on \<open>g.ai\<close>. Each statement is one
  atomic step of the calling thread; the program counter names the statement to run next:
  \<^item> \<open>Copy_global\<close>: \<open>AudioOutputPtr ao = g.ao;\<close>
  \<^item> \<open>Reset_global\<close>: \<open>g.ao.reset();\<close>
  \<^item> \<open>Wait_unique\<close>: one evaluation of \<open>ao.get() && ! ao.unique()\<close>; when it is true
    the thread yields and evaluates it again;
  \<^item> \<open>Reset_local\<close>: \<open>ao.reset();\<close>
  \<^item> \<open>Returned\<close>: the function has returned.
\<close>

datatype stop_one_pc = Copy_global | Reset_global | Wait_unique | Reset_local | Returned

fun stop_one_step ::
  "direction \<Rightarrow> stop_one_pc \<times> lifecycle \<Rightarrow> (stop_one_pc \<times> lifecycle) option" where
  "stop_one_step d (Copy_global, s) =
     Some (Reset_global, (copy_ptr d (g_ptr s d) s)\<lparr>local_ptr := (local_ptr s)(d := g_ptr s d)\<rparr>)"
| "stop_one_step d (Reset_global, s) =
     Some (Wait_unique, (reset_ptr Caller d (g_ptr s d) s)\<lparr>g_ptr := (g_ptr s)(d := None)\<rparr>)"
| "stop_one_step d (Wait_unique, s) =
     Some (case local_ptr s d of
             None \<Rightarrow> (Reset_local, s)
           | Some x \<Rightarrow> if use_count s (d, x) \<noteq> 1 then (Wait_unique, s) else (Reset_local, s))"
| "stop_one_step d (Reset_local, s) =
     Some (Returned, (reset_ptr Caller d (local_ptr s d) s)\<lparr>local_ptr := (local_ptr s)(d := None)\<rparr>)"
| "stop_one_step d (Returned, s) = None"

text \<open>The statements in the order of the text, numbered from 0.\<close>

fun stop_one_statement :: "stop_one_pc \<Rightarrow> nat" where
  "stop_one_statement Copy_global = 0"
| "stop_one_statement Reset_global = 1"
| "stop_one_statement Wait_unique = 2"
| "stop_one_statement Reset_local = 3"
| "stop_one_statement Returned = 4"

definition stopOutput_step :: "stop_one_pc \<times> lifecycle \<Rightarrow> (stop_one_pc \<times> lifecycle) option" where
  "stopOutput_step = stop_one_step Output"

definition stopInput_step :: "stop_one_pc \<times> lifecycle \<Rightarrow> (stop_one_pc \<times> lifecycle) option" where
  "stopInput_step = stop_one_step Input"

subsection \<open>Other threads and schedules\<close>

text \<open>
  What happens between two steps of the calling thread: another thread copies a global
  pointer (\<open>Acquire\<close>, as in \<open>AudioOutputPtr ao = g.ao;\<close> of the sources above; no
  reference is gained when the global pointer is null), copies a reference it already
  holds (\<open>Duplicate\<close>), or drops one (\<open>Release\<close>, which runs the destructor on that
  thread if the reference was the last). Other threads do not assign \<open>g.ai\<close> or \<open>g.ao\<close>.
  An event that cannot happen (a release or copy of a reference that is not held, a step
  after the return) gives \<open>None\<close>. A schedule is a list of events; \<open>exec\<close> runs it.
\<close>

datatype event = Step | Acquire direction | Duplicate direction nat | Release direction nat

fun elsewhere_step :: "event \<Rightarrow> lifecycle \<Rightarrow> lifecycle option" where
  "elsewhere_step Step s = None"
| "elsewhere_step (Acquire d) s =
     Some (case g_ptr s d of
             None \<Rightarrow> s
           | Some x \<Rightarrow>
               (copy_ptr d (Some x) s)\<lparr>elsewhere := (elsewhere s)((d, x) := elsewhere s (d, x) + 1)\<rparr>)"
| "elsewhere_step (Duplicate d x) s =
     (if elsewhere s (d, x) = 0 then None
      else Some ((copy_ptr d (Some x) s)
                   \<lparr>elsewhere := (elsewhere s)((d, x) := elsewhere s (d, x) + 1)\<rparr>))"
| "elsewhere_step (Release d x) s =
     (if elsewhere s (d, x) = 0 then None
      else Some ((reset_ptr Callback d (Some x) s)
                   \<lparr>elsewhere := (elsewhere s)((d, x) := elsewhere s (d, x) - 1)\<rparr>))"

definition event_step ::
  "('pc \<times> lifecycle \<Rightarrow> ('pc \<times> lifecycle) option) \<Rightarrow> event \<Rightarrow> 'pc \<times> lifecycle
     \<Rightarrow> ('pc \<times> lifecycle) option" where
  "event_step prog e c =
     (if e = Step then prog c
      else case elsewhere_step e (snd c) of
             None \<Rightarrow> None
           | Some s' \<Rightarrow> Some (fst c, s'))"

fun exec ::
  "('pc \<times> lifecycle \<Rightarrow> ('pc \<times> lifecycle) option) \<Rightarrow> event list \<Rightarrow> 'pc \<times> lifecycle
     \<Rightarrow> ('pc \<times> lifecycle) option" where
  "exec prog [] c = Some c"
| "exec prog (e # es) c =
     (case event_step prog e c of
        None \<Rightarrow> None
      | Some c' \<Rightarrow> exec prog es c')"

text \<open>
  What holds at each statement of \<open>stopOutput\<close> (\<open>d = Output\<close>) or \<open>stopInput\<close>
  (\<open>d = Input\<close>) called while instance \<open>x\<close> is active.
\<close>

definition stop_one_inv :: "direction \<Rightarrow> nat \<Rightarrow> stop_one_pc \<times> lifecycle \<Rightarrow> bool" where
  "stop_one_inv d x c =
     (case c of (pc, s) \<Rightarrow>
        (case pc of
           Copy_global \<Rightarrow>
             g_ptr s d = Some x \<and> use_count s (d, x) = 1 + elsewhere s (d, x) \<and>
             (\<forall>t. (d, x, t) \<notin> set (destroyed s))
         | Reset_global \<Rightarrow>
             g_ptr s d = Some x \<and> local_ptr s d = Some x \<and>
             use_count s (d, x) = 2 + elsewhere s (d, x) \<and>
             (\<forall>t. (d, x, t) \<notin> set (destroyed s))
         | Wait_unique \<Rightarrow>
             g_ptr s d = None \<and> local_ptr s d = Some x \<and>
             use_count s (d, x) = 1 + elsewhere s (d, x) \<and>
             (\<forall>t. (d, x, t) \<notin> set (destroyed s))
         | Reset_local \<Rightarrow>
             g_ptr s d = None \<and> local_ptr s d = Some x \<and>
             use_count s (d, x) = 1 \<and> elsewhere s (d, x) = 0 \<and>
             (\<forall>t. (d, x, t) \<notin> set (destroyed s))
         | Returned \<Rightarrow>
             g_ptr s d = None \<and> local_ptr s d = None \<and>
             use_count s (d, x) = 0 \<and> elsewhere s (d, x) = 0 \<and>
             (d, x, Caller) \<in> set (destroyed s) \<and> (d, x, Callback) \<notin> set (destroyed s)))"

subsection \<open>Audio::stop\<close>

text \<open>
  The statements of \<open>Audio::stop\<close>, in the order of the source: \<open>ai = g.ai\<close>,
  \<open>ao = g.ao\<close>, \<open>g.ao.reset()\<close>, \<open>g.ai.reset()\<close>, the loop, \<open>ai.reset()\<close>, \<open>ao.reset()\<close>.
  The loop condition \<open>(ai.get() && ! ai.unique()) || (ao.get() && ! ao.unique())\<close> reads
  the two counts one after the other: \<open>Test_ai\<close> evaluates the left operand and, when it
  is true, the thread yields and starts the condition again; otherwise \<open>Test_ao\<close>
  evaluates the right operand, which decides.
\<close>

datatype stop_pc =
    Copy_ai | Copy_ao | Reset_ao | Reset_ai | Test_ai | Test_ao | Release_ai | Release_ao | Stopped

fun stop_step :: "stop_pc \<times> lifecycle \<Rightarrow> (stop_pc \<times> lifecycle) option" where
  "stop_step (Copy_ai, s) =
     Some (Copy_ao, (copy_ptr Input (g_ptr s Input) s)
                      \<lparr>local_ptr := (local_ptr s)(Input := g_ptr s Input)\<rparr>)"
| "stop_step (Copy_ao, s) =
     Some (Reset_ao, (copy_ptr Output (g_ptr s Output) s)
                       \<lparr>local_ptr := (local_ptr s)(Output := g_ptr s Output)\<rparr>)"
| "stop_step (Reset_ao, s) =
     Some (Reset_ai, (reset_ptr Caller Output (g_ptr s Output) s)
                       \<lparr>g_ptr := (g_ptr s)(Output := None)\<rparr>)"
| "stop_step (Reset_ai, s) =
     Some (Test_ai, (reset_ptr Caller Input (g_ptr s Input) s)
                      \<lparr>g_ptr := (g_ptr s)(Input := None)\<rparr>)"
| "stop_step (Test_ai, s) =
     Some (case local_ptr s Input of
             None \<Rightarrow> (Test_ao, s)
           | Some a \<Rightarrow> if use_count s (Input, a) \<noteq> 1 then (Test_ai, s) else (Test_ao, s))"
| "stop_step (Test_ao, s) =
     Some (case local_ptr s Output of
             None \<Rightarrow> (Release_ai, s)
           | Some b \<Rightarrow> if use_count s (Output, b) \<noteq> 1 then (Test_ai, s) else (Release_ai, s))"
| "stop_step (Release_ai, s) =
     Some (Release_ao, (reset_ptr Caller Input (local_ptr s Input) s)
                         \<lparr>local_ptr := (local_ptr s)(Input := None)\<rparr>)"
| "stop_step (Release_ao, s) =
     Some (Stopped, (reset_ptr Caller Output (local_ptr s Output) s)
                      \<lparr>local_ptr := (local_ptr s)(Output := None)\<rparr>)"
| "stop_step (Stopped, s) = None"

fun stop_statement :: "stop_pc \<Rightarrow> nat" where
  "stop_statement Copy_ai = 0"
| "stop_statement Copy_ao = 1"
| "stop_statement Reset_ao = 2"
| "stop_statement Reset_ai = 3"
| "stop_statement Test_ai = 4"
| "stop_statement Test_ao = 5"
| "stop_statement Release_ai = 6"
| "stop_statement Release_ao = 7"
| "stop_statement Stopped = 8"

text \<open>
  What holds at each statement of \<open>Audio::stop\<close>, called while \<open>g.ai\<close> is the pointer
  \<open>ia\<close> and \<open>g.ao\<close> the pointer \<open>oa\<close>, each of them an instance or null. For a pointer
  \<open>p\<close> of direction \<open>d\<close>, each of the following holds when \<open>p\<close> is null, and for an
  instance it says:
  \<^item> \<open>held d p n s\<close>: the instance has not been destroyed and is referenced \<open>n\<close> times by
    the globals and the caller's locals, besides the references held elsewhere;
  \<^item> \<open>unshared d p s\<close>: no reference to it is held elsewhere;
  \<^item> \<open>sole d p s\<close>: it has not been destroyed and its only reference is the caller's;
  \<^item> \<open>gone d p s\<close>: it is referenced nowhere, and its destructor has run on the calling
    thread and on no other.
  \<open>destroyed_by_caller d p\<close> is the entry that the destruction of the instance by the
  caller adds to \<open>destroyed\<close> (nothing for a null pointer).
\<close>

definition held :: "direction \<Rightarrow> nat option \<Rightarrow> nat \<Rightarrow> lifecycle \<Rightarrow> bool" where
  "held d p n s =
     (case p of
        None \<Rightarrow> True
      | Some x \<Rightarrow>
          use_count s (d, x) = n + elsewhere s (d, x) \<and> (\<forall>t. (d, x, t) \<notin> set (destroyed s)))"

definition unshared :: "direction \<Rightarrow> nat option \<Rightarrow> lifecycle \<Rightarrow> bool" where
  "unshared d p s = (case p of None \<Rightarrow> True | Some x \<Rightarrow> elsewhere s (d, x) = 0)"

definition sole :: "direction \<Rightarrow> nat option \<Rightarrow> lifecycle \<Rightarrow> bool" where
  "sole d p s =
     (case p of
        None \<Rightarrow> True
      | Some x \<Rightarrow>
          use_count s (d, x) = 1 \<and> elsewhere s (d, x) = 0 \<and>
          (\<forall>t. (d, x, t) \<notin> set (destroyed s)))"

definition gone :: "direction \<Rightarrow> nat option \<Rightarrow> lifecycle \<Rightarrow> bool" where
  "gone d p s =
     (case p of
        None \<Rightarrow> True
      | Some x \<Rightarrow>
          use_count s (d, x) = 0 \<and> elsewhere s (d, x) = 0 \<and>
          (d, x, Caller) \<in> set (destroyed s) \<and> (d, x, Callback) \<notin> set (destroyed s))"

definition destroyed_by_caller :: "direction \<Rightarrow> nat option \<Rightarrow> (direction \<times> nat \<times> thread) list" where
  "destroyed_by_caller d p = (case p of None \<Rightarrow> [] | Some x \<Rightarrow> [(d, x, Caller)])"

definition stop_inv :: "nat option \<Rightarrow> nat option \<Rightarrow> stop_pc \<times> lifecycle \<Rightarrow> bool" where
  "stop_inv ia oa c =
     (case c of (pc, s) \<Rightarrow>
        (case pc of
           Copy_ai \<Rightarrow>
             g_ptr s Input = ia \<and> g_ptr s Output = oa \<and>
             held Input ia 1 s \<and> held Output oa 1 s
         | Copy_ao \<Rightarrow>
             g_ptr s Input = ia \<and> g_ptr s Output = oa \<and> local_ptr s Input = ia \<and>
             held Input ia 2 s \<and> held Output oa 1 s
         | Reset_ao \<Rightarrow>
             g_ptr s Input = ia \<and> g_ptr s Output = oa \<and>
             local_ptr s Input = ia \<and> local_ptr s Output = oa \<and>
             held Input ia 2 s \<and> held Output oa 2 s
         | Reset_ai \<Rightarrow>
             g_ptr s Input = ia \<and> g_ptr s Output = None \<and>
             local_ptr s Input = ia \<and> local_ptr s Output = oa \<and>
             held Input ia 2 s \<and> held Output oa 1 s
         | Test_ai \<Rightarrow>
             g_ptr s Input = None \<and> g_ptr s Output = None \<and>
             local_ptr s Input = ia \<and> local_ptr s Output = oa \<and>
             held Input ia 1 s \<and> held Output oa 1 s
         | Test_ao \<Rightarrow>
             g_ptr s Input = None \<and> g_ptr s Output = None \<and>
             local_ptr s Input = ia \<and> local_ptr s Output = oa \<and>
             sole Input ia s \<and> held Output oa 1 s
         | Release_ai \<Rightarrow>
             g_ptr s Input = None \<and> g_ptr s Output = None \<and>
             local_ptr s Input = ia \<and> local_ptr s Output = oa \<and>
             sole Input ia s \<and> sole Output oa s
         | Release_ao \<Rightarrow>
             g_ptr s Input = None \<and> g_ptr s Output = None \<and>
             local_ptr s Input = None \<and> local_ptr s Output = oa \<and>
             gone Input ia s \<and> sole Output oa s
         | Stopped \<Rightarrow>
             g_ptr s Input = None \<and> g_ptr s Output = None \<and>
             local_ptr s Input = None \<and> local_ptr s Output = None \<and>
             gone Input ia s \<and> gone Output oa s))"

subsection \<open>Audio::startOutput and Audio::startInput\<close>

text \<open>
  \<open>AudioOutputRegistrar::newFromChoice\<close> and \<open>AudioInputRegistrar::newFromChoice\<close> are not
  part of Audio.cpp; they are parameters: a function from the choice to a pointer to a
  new instance, or to the null pointer. \<open>assign_global\<close> is the assignment
  \<open>g.ao = ...\<close> of that pointer: the reference \<open>g.ao\<close> held before is dropped, and the new
  instance is referenced once.
\<close>

definition assign_global :: "direction \<Rightarrow> nat option \<Rightarrow> lifecycle \<Rightarrow> lifecycle" where
  "assign_global d p s =
     (let s1 = reset_ptr Caller d (g_ptr s d) s
      in s1\<lparr>g_ptr := (g_ptr s1)(d := p),
             use_count := (case p of
                             None \<Rightarrow> use_count s1
                           | Some x \<Rightarrow> (use_count s1)((d, x) := 1))\<rparr>)"

definition startOutput :: "(string \<Rightarrow> nat option) \<Rightarrow> string \<Rightarrow> lifecycle \<Rightarrow> lifecycle" where
  "startOutput newFromChoice output s =
     (let s1 = assign_global Output (newFromChoice output) s
      in case g_ptr s1 Output of
           None \<Rightarrow> s1
         | Some x \<Rightarrow> s1\<lparr>started := started s1 @ [(Output, x, HighPriority)]\<rparr>)"

definition startInput :: "(string \<Rightarrow> nat option) \<Rightarrow> string \<Rightarrow> lifecycle \<Rightarrow> lifecycle" where
  "startInput newFromChoice input s =
     (let s1 = assign_global Input (newFromChoice input) s
      in case g_ptr s1 Input of
           None \<Rightarrow> s1
         | Some x \<Rightarrow> s1\<lparr>started := started s1 @ [(Input, x, HighestPriority)]\<rparr>)"

text \<open>Concrete inputs for the examples: no device active, and a registrar that knows one choice.\<close>

definition no_devices :: lifecycle where
  "no_devices =
     \<lparr>g_ptr = (\<lambda>d. None), use_count = (\<lambda>i. 0), elsewhere = (\<lambda>i. 0),
      destroyed = [], started = [], local_ptr = (\<lambda>d. None)\<rparr>"

definition sample_registrar :: "string \<Rightarrow> nat option" where
  "sample_registrar choice = (if choice = ''Default'' then Some 1 else None)"

text \<open>
  Two schedules for the examples. In both, a callback thread copies \<open>g.ao\<close> before the
  caller clears it and releases the copy while the caller waits; in the first, it holds
  the copy already when the caller takes its own, and it copies \<open>g.ao\<close> again after
  the clearing.
\<close>

definition callback_holds_output :: "event list" where
  "callback_holds_output =
     [Acquire Output, Step, Step, Step, Acquire Output, Step, Release Output 1, Step, Step]"

definition callback_holds_output_during_stop :: "event list" where
  "callback_holds_output_during_stop =
     [Step, Acquire Output, Step, Step, Step, Step, Step, Step, Step,
      Release Output 1, Step, Step, Step, Step]"

section \<open>Properties of the sources\<close>

subsection \<open>Rounding\<close>

text \<open>
  \<open>round_to p emin\<close> returns a number with a significand of at most \<open>p\<close> bits at an
  exponent of at least \<open>emin\<close>, it keeps every such number, it does not decrease with
  its argument, and it is off by at most half a unit in the last place.
\<close>

lemma ilog2_bounds:
  assumes "0 < y"
  shows "2 powi (ilog2 y) \<le> y \<and> y < 2 powi (ilog2 y + 1)"
proof (cases "1 \<le> y")
  case True
  define n where "n = nat \<lfloor>y\<rfloor>"
  have n_pos: "0 < n" using True by (simp add: n_def)
  have n_le: "real n \<le> y" using True by (simp add: n_def; linarith?)
  have y_lt: "y < real n + 1" using True by (simp add: n_def; linarith?)
  from floorlog_bounds [OF n_pos, of 2]
  have b: "2 ^ (floorlog 2 n - 1) \<le> n" "n < 2 ^ floorlog 2 n" by simp_all
  have fl_pos: "0 < floorlog 2 n" using n_pos by (simp add: floorlog_def)
  have il: "ilog2 y = int (floorlog 2 n - 1)"
    using True fl_pos by (simp add: ilog2_def n_def)
  have il1: "ilog2 y + 1 = int (floorlog 2 n)"
    using il fl_pos by simp
  have "2 powi (ilog2 y) = (2::real) ^ (floorlog 2 n - 1)"
    unfolding il by (simp add: power_int_def)
  also have "\<dots> \<le> real n" using b(1) by (metis of_nat_le_iff of_nat_numeral of_nat_power)
  finally have lo: "2 powi (ilog2 y) \<le> y" using n_le by linarith
  have "n + 1 \<le> 2 ^ floorlog 2 n" using b(2) by simp
  then have "real (n + 1) \<le> real (2 ^ floorlog 2 n)" by (rule of_nat_mono)
  then have "real n + 1 \<le> 2 ^ floorlog 2 n" by simp
  with y_lt have "y < 2 ^ floorlog 2 n" by linarith
  then have hi: "y < 2 powi (ilog2 y + 1)"
    unfolding il1 by (simp add: power_int_def)
  from lo hi show ?thesis ..
next
  case False
  define m where "m = nat \<lceil>1 / y\<rceil>"
  have inv_gt: "1 < 1 / y" using False assms by simp
  have m_ge: "1 / y \<le> real m" using inv_gt by (simp add: m_def; linarith?)
  have m_lt: "real m - 1 < 1 / y" using inv_gt by (simp add: m_def; linarith?)
  have m2: "2 \<le> m" using inv_gt m_ge by linarith
  define k where "k = floorlog 2 (m - 1)"
  have "0 < m - 1" using m2 by simp
  from floorlog_bounds [OF this, of 2]
  have b: "2 ^ (k - 1) \<le> m - 1" "m - 1 < 2 ^ k" by (simp_all add: k_def)
  have k_pos: "0 < k" using m2 by (simp add: k_def floorlog_def)
  have il: "ilog2 y = - int k" using False by (simp add: ilog2_def m_def k_def)
  have "m \<le> 2 ^ k" using b(2) by simp
  then have "real m \<le> real (2 ^ k)" by (rule of_nat_mono)
  then have "real m \<le> 2 ^ k" by simp
  with m_ge have "1 / y \<le> 2 ^ k" by linarith
  then have "1 \<le> 2 ^ k * y" using assms by (simp add: field_simps)
  then have lo: "2 powi (ilog2 y) \<le> y"
    unfolding il by (simp add: power_int_minus field_simps)
  have "real (2 ^ (k - 1)) \<le> real (m - 1)" using b(1) by (rule of_nat_mono)
  then have "2 ^ (k - 1) \<le> real m - 1" using m2 by (simp add: of_nat_diff)
  with m_lt have "2 ^ (k - 1) < 1 / y" by linarith
  then have "2 ^ (k - 1) * y < 1" using assms by (simp add: field_simps)
  moreover have "ilog2 y + 1 = - int (k - 1)" using il k_pos by simp
  ultimately have hi: "y < 2 powi (ilog2 y + 1)"
    by (simp add: power_int_minus field_simps)
  from lo hi show ?thesis ..
qed

lemma ilog2_unique:
  assumes "2 powi k \<le> y" and "y < 2 powi (k + 1)"
  shows "ilog2 y = k"
proof -
  have pos: "0 < y" using assms(1) zero_less_power_int [of "2::real" k] by linarith
  from ilog2_bounds [OF pos]
  have b: "2 powi (ilog2 y) \<le> y" "y < 2 powi (ilog2 y + 1)" by simp_all
  have "(2::real) powi (ilog2 y) < 2 powi (k + 1)" using b(1) assms(2) by linarith
  then have "ilog2 y < k + 1"
    using power_int_increasing [of "k + 1" "ilog2 y" "2::real"] by (cases "ilog2 y < k + 1") auto
  moreover have "(2::real) powi k < 2 powi (ilog2 y + 1)" using b(2) assms(1) by linarith
  then have "k < ilog2 y + 1"
    using power_int_increasing [of "ilog2 y + 1" k "2::real"] by (cases "k < ilog2 y + 1") auto
  ultimately show ?thesis by simp
qed

lemma ilog2_mono:
  assumes "0 < x" and "x \<le> y"
  shows "ilog2 x \<le> ilog2 y"
proof -
  have "0 < y" using assms by simp
  from ilog2_bounds [OF assms(1)] ilog2_bounds [OF this]
  have "(2::real) powi (ilog2 x) < 2 powi (ilog2 y + 1)" using assms(2) by linarith
  then have "ilog2 x < ilog2 y + 1"
    using power_int_increasing [of "ilog2 y + 1" "ilog2 x" "2::real"]
    by (cases "ilog2 x < ilog2 y + 1") auto
  then show ?thesis by simp
qed

lemma rne_of_int: "rne (of_int m) = m"
  by (simp add: rne_def)

lemma rne_between: "\<lfloor>x\<rfloor> \<le> rne x \<and> rne x \<le> \<lfloor>x\<rfloor> + 1"
  by (simp add: rne_def Let_def)

lemma rne_nearest: "\<bar>real_of_int (rne x) - x\<bar> \<le> 1 / 2"
  by (auto simp: rne_def Let_def; linarith?)

lemma rne_mono:
  assumes "x \<le> y"
  shows "rne x \<le> rne y"
proof (cases "\<lfloor>x\<rfloor> = \<lfloor>y\<rfloor>")
  case True
  with assms show ?thesis by (auto simp: rne_def Let_def)
next
  case False
  with assms have "\<lfloor>x\<rfloor> < \<lfloor>y\<rfloor>" using floor_mono [OF assms] by linarith
  with rne_between [of x] rne_between [of y] show ?thesis by linarith
qed

lemma rne_nonneg: "0 \<le> x \<Longrightarrow> 0 \<le> rne x"
  using rne_mono [of 0 x] rne_of_int [of 0] by simp

lemma round_to_0 [simp]: "round_to p emin 0 = 0"
  by (simp add: round_to_def)

lemma round_to_pos_eq:
  assumes "0 < x"
  shows "round_to p emin x =
           of_int (rne (x / 2 powi (max (ilog2 x - (int p - 1)) emin)))
             * 2 powi (max (ilog2 x - (int p - 1)) emin)"
  using assms by (simp add: round_to_def Let_def)

lemma round_to_minus: "round_to p emin (- x) = - round_to p emin x"
  by (simp add: round_to_def Let_def sgn_real_def)

lemma round_to_nonneg:
  assumes "0 \<le> x"
  shows "0 \<le> round_to p emin x"
proof (cases "x = 0")
  case True
  then show ?thesis by simp
next
  case False
  with assms have pos: "0 < x" by simp
  have "0 \<le> x / 2 powi (max (ilog2 x - (int p - 1)) emin)" using pos by simp
  from rne_nonneg [OF this] show ?thesis
    unfolding round_to_pos_eq [OF pos] by simp
qed

text \<open>A value with a significand below \<open>2^p\<close> at an exponent that exists is kept.\<close>

lemma round_to_exact_pos:
  assumes "0 < m" and "m < 2 ^ p" and "emin \<le> k"
  shows "round_to p emin (of_int m * 2 powi k) = of_int m * 2 powi k"
proof -
  define x :: real where "x = of_int m * 2 powi k"
  have pos: "0 < x" using assms(1) by (simp add: x_def)
  define e where "e = max (ilog2 x - (int p - 1)) emin"
  have "of_int m < (2::real) ^ p" using assms(2) by (metis of_int_less_iff of_int_numeral of_int_power)
  then have "x < 2 ^ p * 2 powi k" by (simp add: x_def)
  also have "\<dots> = 2 powi (int p + k)" by (simp add: power_int_add)
  finally have "x < 2 powi (int p + k)" .
  with ilog2_bounds [OF pos] have "(2::real) powi (ilog2 x) < 2 powi (int p + k)" by linarith
  then have "ilog2 x < int p + k"
    using power_int_increasing [of "int p + k" "ilog2 x" "2::real"]
    by (cases "ilog2 x < int p + k") auto
  with assms(3) have ek: "e \<le> k" by (simp add: e_def)
  define j where "j = nat (k - e)"
  have k: "k = e + int j" using ek by (simp add: j_def)
  have q: "x / 2 powi e = of_int (m * 2 ^ j)"
    unfolding x_def k by (simp add: power_int_add)
  have "round_to p emin x = of_int (rne (x / 2 powi e)) * 2 powi e"
    unfolding e_def by (rule round_to_pos_eq [OF pos])
  also have "\<dots> = of_int (m * 2 ^ j) * 2 powi e"
    unfolding q rne_of_int ..
  also have "\<dots> = x"
    unfolding x_def k by (simp add: power_int_add)
  finally show ?thesis unfolding x_def .
qed

lemma round_to_exact:
  assumes "\<bar>m\<bar> < 2 ^ p" and "emin \<le> k"
  shows "round_to p emin (of_int m * 2 powi k) = of_int m * 2 powi k"
proof -
  consider "m = 0" | "0 < m" | "m < 0" by linarith
  then show ?thesis
  proof cases
    case 1
    then show ?thesis by simp
  next
    case 2
    with assms show ?thesis by (simp add: round_to_exact_pos)
  next
    case 3
    with assms have "0 < - m" "- m < 2 ^ p" by simp_all
    from round_to_exact_pos [OF this assms(2)]
    have "round_to p emin (- (of_int m * 2 powi k)) = - (of_int m * 2 powi k)" by simp
    then show ?thesis by (simp add: round_to_minus)
  qed
qed

lemma round_to_power:
  assumes "emin \<le> k" and "0 < p"
  shows "round_to p emin (2 powi k) = 2 powi k"
proof -
  have "\<bar>1::int\<bar> < 2 ^ p" using assms(2) by (simp add: one_less_power)
  from round_to_exact [OF this assms(1)] show ?thesis by simp
qed

lemma round_to_of_int:
  assumes "\<bar>n\<bar> \<le> 2 ^ p" and "emin \<le> 0" and "0 < p"
  shows "round_to p emin (of_int n) = of_int n"
proof (cases "\<bar>n\<bar> < 2 ^ p")
  case True
  from round_to_exact [OF True assms(2)] show ?thesis by simp
next
  case False
  with assms(1) have n: "\<bar>n\<bar> = 2 ^ p" by simp
  have e: "emin \<le> int p" using assms(2) by simp
  have pw: "round_to p emin (2 ^ p) = 2 ^ p"
    using round_to_power [OF e assms(3)] by (simp add: power_int_def)
  show ?thesis
  proof (cases "0 \<le> n")
    case True
    with n have "n = 2 ^ p" by simp
    with pw show ?thesis by simp
  next
    case False
    with n have "n = - (2 ^ p)" by simp
    with pw show ?thesis by (simp add: round_to_minus)
  qed
qed

text \<open>The significand of a rounded value is at most \<open>2^p\<close>.\<close>

lemma round_to_significand:
  assumes "0 < x"
  shows "rne (x / 2 powi (max (ilog2 x - (int p - 1)) emin)) \<le> 2 ^ p"
proof -
  define e where "e = max (ilog2 x - (int p - 1)) emin"
  have le: "ilog2 x + 1 - e \<le> int p" by (simp add: e_def)
  have "x / 2 powi e < 2 powi (ilog2 x + 1) / 2 powi e"
    using ilog2_bounds [OF assms] by (simp add: divide_strict_right_mono)
  also have "\<dots> = 2 powi (ilog2 x + 1 - e)" by (simp add: power_int_diff)
  also have "\<dots> \<le> 2 powi (int p)" using le by (rule power_int_increasing) simp
  finally have "x / 2 powi e \<le> of_int (2 ^ p)" by (simp add: power_int_def)
  from rne_mono [OF this] show ?thesis unfolding e_def rne_of_int .
qed

lemma round_to_idem:
  assumes "0 < p"
  shows "round_to p emin (round_to p emin x) = round_to p emin x"
proof -
  have pos_case: "round_to p emin (round_to p emin y) = round_to p emin y" if "0 < y" for y
  proof -
    define e where "e = max (ilog2 y - (int p - 1)) emin"
    define M where "M = rne (y / 2 powi e)"
    have r: "round_to p emin y = of_int M * 2 powi e"
      unfolding M_def e_def by (rule round_to_pos_eq [OF that])
    have M_le: "M \<le> 2 ^ p" unfolding M_def e_def by (rule round_to_significand [OF that])
    have M_ge: "0 \<le> M" unfolding M_def using that by (simp add: rne_nonneg)
    have emin: "emin \<le> e" by (simp add: e_def)
    show ?thesis
    proof (cases "M < 2 ^ p")
      case True
      with M_ge have "\<bar>M\<bar> < 2 ^ p" by simp
      from round_to_exact [OF this emin] show ?thesis unfolding r .
    next
      case False
      with M_le have M: "M = 2 ^ p" by simp
      have "of_int M * 2 powi e = (2::real) powi (int p + e)"
        unfolding M by (simp add: power_int_add)
      moreover have "emin \<le> int p + e" using emin by simp
      ultimately show ?thesis unfolding r using round_to_power [OF _ assms] by simp
    qed
  qed
  consider "x = 0" | "0 < x" | "x < 0" by linarith
  then show ?thesis
  proof cases
    case 1
    then show ?thesis by simp
  next
    case 2
    then show ?thesis by (rule pos_case)
  next
    case 3
    then have "0 < - x" by simp
    from pos_case [OF this] show ?thesis by (simp add: round_to_minus)
  qed
qed

lemma round_to_mono_pos:
  assumes "0 < x" and "x \<le> y" and "0 < p"
  shows "round_to p emin x \<le> round_to p emin y"
proof -
  have ypos: "0 < y" using assms by simp
  define ex where "ex = max (ilog2 x - (int p - 1)) emin"
  define ey where "ey = max (ilog2 y - (int p - 1)) emin"
  have rx: "round_to p emin x = of_int (rne (x / 2 powi ex)) * 2 powi ex"
    unfolding ex_def by (rule round_to_pos_eq [OF assms(1)])
  have ry: "round_to p emin y = of_int (rne (y / 2 powi ey)) * 2 powi ey"
    unfolding ey_def by (rule round_to_pos_eq [OF ypos])
  have le: "ex \<le> ey"
    using ilog2_mono [OF assms(1,2)] by (simp add: ex_def ey_def)
  show ?thesis
  proof (cases "ex = ey")
    case True
    have "x / 2 powi ey \<le> y / 2 powi ey"
      using assms(2) by (simp add: divide_right_mono)
    from rne_mono [OF this] show ?thesis
      unfolding rx ry True by (simp add: mult_right_mono)
  next
    case False
    with le have lt: "ex < ey" by simp
    then have ey: "ey = ilog2 y - (int p - 1)" by (auto simp: ex_def ey_def)
    have "of_int (rne (x / 2 powi ex)) \<le> (2::real) ^ p"
      using round_to_significand [OF assms(1), of p emin]
      unfolding ex_def by (metis of_int_le_iff of_int_numeral of_int_power)
    then have "round_to p emin x \<le> 2 ^ p * 2 powi ex"
      unfolding rx by (simp add: mult_right_mono)
    also have "\<dots> = 2 powi (int p + ex)" by (simp add: power_int_add)
    also have "\<dots> \<le> 2 powi (ilog2 y)"
      using lt ey by (intro power_int_increasing) simp_all
    finally have upper: "round_to p emin x \<le> 2 powi (ilog2 y)" .
    have "2 powi (ilog2 y) / 2 powi ey \<le> y / 2 powi ey"
      using ilog2_bounds [OF ypos] by (simp add: divide_right_mono)
    moreover have half: "(2::real) powi (ilog2 y) / 2 powi ey = real_of_int (2 ^ (p - 1))"
    proof -
      have "(2::real) powi (ilog2 y) / 2 powi ey = 2 powi (ilog2 y - ey)"
        by (simp add: power_int_diff)
      also have "ilog2 y - ey = int (p - 1)" using assms(3) unfolding ey by simp
      also have "(2::real) powi int (p - 1) = real_of_int (2 ^ (p - 1))" by simp
      finally show ?thesis .
    qed
    ultimately have "real_of_int (2 ^ (p - 1)) \<le> y / 2 powi ey" by simp
    from rne_mono [OF this] have "2 ^ (p - 1) \<le> rne (y / 2 powi ey)"
      unfolding rne_of_int .
    then have "real_of_int (2 ^ (p - 1)) \<le> real_of_int (rne (y / 2 powi ey))"
      by (simp only: of_int_le_iff)
    then have "real_of_int (2 ^ (p - 1)) * 2 powi ey \<le> round_to p emin y"
      unfolding ry by (simp add: mult_right_mono)
    moreover have "real_of_int (2 ^ (p - 1)) * 2 powi ey = 2 powi (ilog2 y)"
      using half by (simp add: field_simps)
    ultimately have "2 powi (ilog2 y) \<le> round_to p emin y" by simp
    with upper show ?thesis by simp
  qed
qed

lemma round_to_mono:
  assumes "0 \<le> x" and "x \<le> y" and "0 < p"
  shows "round_to p emin x \<le> round_to p emin y"
proof (cases "x = 0")
  case True
  with assms show ?thesis by (simp add: round_to_nonneg)
next
  case False
  with assms have "0 < x" by simp
  from round_to_mono_pos [OF this assms(2,3)] show ?thesis .
qed

text \<open>The rounded value is at most half a unit in the last place away.\<close>

lemma round_to_nearest:
  "\<bar>round_to p emin x - x\<bar> \<le> 2 powi (max (ilog2 \<bar>x\<bar> - (int p - 1)) emin - 1)"
proof (cases "x = 0")
  case True
  then show ?thesis by simp
next
  case False
  define e where "e = max (ilog2 \<bar>x\<bar> - (int p - 1)) emin"
  define q where "q = \<bar>x\<bar> / 2 powi e"
  have pw: "(0::real) < 2 powi e" by simp
  have x: "x = sgn x * q * 2 powi e"
    using pw by (simp add: q_def sgn_real_def)
  have "round_to p emin x = sgn x * real_of_int (rne q) * 2 powi e"
    using False by (simp add: round_to_def Let_def e_def q_def)
  then have "round_to p emin x - x = sgn x * (real_of_int (rne q) - q) * 2 powi e"
    using x by (simp add: algebra_simps)
  then have "\<bar>round_to p emin x - x\<bar> = \<bar>real_of_int (rne q) - q\<bar> * 2 powi e"
    using False by (simp add: abs_mult)
  also have "\<dots> \<le> 1 / 2 * 2 powi e"
    using rne_nearest [of q] pw by (simp add: mult_right_mono)
  also have "\<dots> = 2 powi (e - 1)"
    by (simp add: power_int_diff)
  finally show ?thesis unfolding e_def .
qed

subsection \<open>Doubles, floats and the random draw\<close>

text \<open>
  Integers up to \<open>2^53\<close> are doubles and integers up to \<open>2^24\<close> are floats, so the
  conversions of \<open>rand()\<close>, \<open>RAND_MAX\<close> and of a clock below \<open>2^24\<close> ms are exact.
  \<open>DOUBLE_RAND\<close> lies between 0 and 1, both included: it is 1 exactly when
  \<open>rand()\<close> returns \<open>RAND_MAX\<close>.
\<close>

lemma less_float_value_simps [simp]:
  "(Finite a < Finite b) = (a < b)"
  "(MinusInf < Finite b) = True"
  "(Finite a < PlusInf) = True"
  "(MinusInf < PlusInf) = True"
  "(x < MinusInf) = False"
  "(PlusInf < x) = False"
  by (cases x; auto simp: less_float_value_def)+

lemma to_double_0 [simp]: "to_double 0 = 0"
  by (simp add: to_double_def)

lemma to_double_idem [simp]: "to_double (to_double x) = to_double x"
  unfolding to_double_def by (rule round_to_idem) simp

lemma to_double_of_int:
  "\<bar>n\<bar> \<le> 2 ^ 53 \<Longrightarrow> to_double (of_int n) = of_int n"
  unfolding to_double_def by (rule round_to_of_int) simp_all

lemma to_double_of_nat:
  "n \<le> 2 ^ 53 \<Longrightarrow> to_double (real n) = real n"
  using to_double_of_int [of "int n"] by simp

lemma to_double_1 [simp]: "to_double 1 = 1"
  using to_double_of_int [of 1] by simp

lemma to_double_mono: "0 \<le> x \<Longrightarrow> x \<le> y \<Longrightarrow> to_double x \<le> to_double y"
  unfolding to_double_def by (rule round_to_mono) simp_all

lemma to_double_nonneg: "0 \<le> x \<Longrightarrow> 0 \<le> to_double x"
  unfolding to_double_def by (rule round_to_nonneg)

text \<open>\<open>DOUBLE_RAND\<close> lies in the closed interval from 0 to 1 and does not decrease with the draw.\<close>

lemma to_double_RAND_MAX_pos:
  assumes "0 < RAND_MAX"
  shows "1 \<le> to_double (real RAND_MAX)"
proof -
  have "(1::real) \<le> real RAND_MAX" using assms by simp
  from to_double_mono [OF _ this] show ?thesis by simp
qed

lemma DOUBLE_RAND_mono:
  assumes "0 < RAND_MAX" and "rand \<le> rand'"
  shows "DOUBLE_RAND RAND_MAX rand \<le> DOUBLE_RAND RAND_MAX rand'"
proof -
  have d: "0 < to_double (real RAND_MAX)" using to_double_RAND_MAX_pos [OF assms(1)] by linarith
  have n: "0 \<le> to_double (real rand)" by (simp add: to_double_nonneg)
  have "to_double (real rand) \<le> to_double (real rand')"
    using assms(2) by (simp add: to_double_mono)
  then have "to_double (real rand) / to_double (real RAND_MAX)
               \<le> to_double (real rand') / to_double (real RAND_MAX)"
    using d by (simp add: divide_right_mono)
  moreover have "0 \<le> to_double (real rand) / to_double (real RAND_MAX)" using n d by simp
  ultimately show ?thesis unfolding DOUBLE_RAND_def by (rule to_double_mono [rotated])
qed

lemma DOUBLE_RAND_0 [simp]: "DOUBLE_RAND RAND_MAX 0 = 0"
  by (simp add: DOUBLE_RAND_def)

lemma DOUBLE_RAND_RAND_MAX:
  assumes "0 < RAND_MAX"
  shows "DOUBLE_RAND RAND_MAX RAND_MAX = 1"
proof -
  have "to_double (real RAND_MAX) \<noteq> 0" using to_double_RAND_MAX_pos [OF assms] by linarith
  then show ?thesis by (simp add: DOUBLE_RAND_def)
qed

lemma DOUBLE_RAND_range:
  assumes "0 < RAND_MAX" and "rand \<le> RAND_MAX"
  shows "0 \<le> DOUBLE_RAND RAND_MAX rand \<and> DOUBLE_RAND RAND_MAX rand \<le> 1"
  using DOUBLE_RAND_mono [OF assms(1), of 0 rand] DOUBLE_RAND_mono [OF assms]
    DOUBLE_RAND_RAND_MAX [OF assms(1)]
  by simp

text \<open>
  For a \<open>RAND_MAX\<close> that a double holds exactly, the draw \<open>RAND_MAX\<close> is the only one
  for which \<open>DOUBLE_RAND\<close> is not below 1.
\<close>

lemma DOUBLE_RAND_less_1:
  assumes "0 < RAND_MAX" and "RAND_MAX \<le> 2 ^ 53"
  shows "(DOUBLE_RAND RAND_MAX rand < 1) = (rand < RAND_MAX)"
proof (cases "rand < RAND_MAX")
  case True
  define y :: real where "y = of_int (2 ^ 53 - 1) * 2 powi (- 53)"
  have y_exact: "to_double y = y"
    unfolding y_def to_double_def by (rule round_to_exact) simp_all
  have y_val: "y = 1 - 1 / 2 ^ 53" by (simp add: y_def power_int_minus field_simps)
  have rm: "to_double (real RAND_MAX) = real RAND_MAX"
    using assms(2) by (rule to_double_of_nat)
  have rd: "to_double (real rand) = real rand"
    using True assms(2) by (intro to_double_of_nat) simp
  have "real rand + 1 \<le> real RAND_MAX" using True by linarith
  then have "real rand / real RAND_MAX \<le> 1 - 1 / real RAND_MAX"
    using assms(1) by (simp add: field_simps)
  also have "1 / (2::real) ^ 53 \<le> 1 / real RAND_MAX"
  proof -
    have "real RAND_MAX \<le> real (2 ^ 53)" using assms(2) by (rule of_nat_mono)
    then have "real RAND_MAX \<le> 2 ^ 53" by simp
    with assms(1) show ?thesis by (simp add: frac_le)
  qed
  then have "1 - 1 / real RAND_MAX \<le> y" unfolding y_val by linarith
  finally have le: "real rand / real RAND_MAX \<le> y" .
  have "0 \<le> real rand / real RAND_MAX" by simp
  from to_double_mono [OF this le] have "DOUBLE_RAND RAND_MAX rand \<le> y"
    unfolding DOUBLE_RAND_def rm rd y_exact .
  moreover have "y < 1" unfolding y_val by simp
  ultimately show ?thesis using True by simp
next
  case False
  then have "RAND_MAX \<le> rand" by simp
  from DOUBLE_RAND_mono [OF assms(1) this] DOUBLE_RAND_RAND_MAX [OF assms(1)] False
  show ?thesis by simp
qed

text \<open>The conversion to \<open>float\<close> keeps the integers up to \<open>2^24\<close>.\<close>

lemma static_cast_float_exact:
  assumes "0 \<le> t" and "t \<le> 2 ^ 24"
  shows "static_cast_float (real_of_int t) = Finite (real_of_int t)"
proof -
  have "\<bar>t\<bar> \<le> 2 ^ 24" using assms by simp
  then have r: "round_to 24 (- 149) (real_of_int t) = real_of_int t"
    by (rule round_to_of_int) simp_all
  have "real_of_int t \<le> real_of_int (2 ^ 24)" using assms(2) by (simp only: of_int_le_iff)
  then have "real_of_int t < 2 ^ 128" by simp
  moreover have "- (2 ^ 128) < real_of_int t" using assms(1) by simp
  ultimately show ?thesis by (simp add: static_cast_float_def r)
qed

lemma static_cast_float_to_double_exact:
  assumes "0 \<le> t" and "t \<le> 2 ^ 24"
  shows "static_cast_float (to_double (real_of_int t)) = Finite (real_of_int t)"
proof -
  have "\<bar>t\<bar> \<le> 2 ^ 53" using assms by simp
  from to_double_of_int [OF this] static_cast_float_exact [OF assms] show ?thesis by simp
qed

subsection \<open>Numerals\<close>

text \<open>Small integer constants are doubles and floats.\<close>

lemma to_double_numeral:
  "(numeral k :: int) \<le> 2 ^ 53 \<Longrightarrow> to_double (numeral k) = numeral k"
  using to_double_of_int [of "numeral k"] by simp

lemma static_cast_float_numeral:
  "(numeral k :: int) \<le> 2 ^ 24 \<Longrightarrow> static_cast_float (numeral k) = Finite (numeral k)"
  using static_cast_float_exact [of "numeral k"] by simp

subsection \<open>The ordered collection\<close>

lemma set_mm_insert: "set (mm_insert k v xs) = insert (k, v) (set xs)"
  by (induction xs) (auto split: if_splits)

lemma sorted_mm_insert: "sorted (map fst xs) \<Longrightarrow> sorted (map fst (mm_insert k v xs))"
  by (induction xs) (fastforce simp: set_mm_insert)+

lemma length_mm_insert: "length (mm_insert k v xs) = Suc (length xs)"
  by (induction xs) auto

lemma drain_sorted:
  "sorted (map fst xs) \<Longrightarrow>
   drain pds this cmp xs calls =
     (filter (\<lambda>e. Finite cmp < fst e) xs,
      calls @ map (\<lambda>e. deliver pds this (snd e)) (filter (\<lambda>e. fst e \<le> Finite cmp) xs))"
proof (induction xs arbitrary: calls)
  case Nil
  then show ?case by simp
next
  case (Cons a xs)
  obtain k d where a: "a = (k, d)" by (cases a)
  show ?case
  proof (cases "Finite cmp < k")
    case True
    with Cons.prems a have "\<forall>e\<in>set xs. Finite cmp < fst e" by auto
    then have "filter (\<lambda>e. Finite cmp < fst e) xs = xs"
      "filter (\<lambda>e. fst e \<le> Finite cmp) xs = []"
      by (auto simp: filter_empty_conv)
    with True a show ?thesis by simp
  next
    case False
    with Cons a show ?thesis by simp
  qed
qed

lemma due_prefix:
  "sorted (map fst xs) \<Longrightarrow>
     filter (\<lambda>e. fst e \<le> (cmp::'k::linorder)) xs = takeWhile (\<lambda>e. fst e \<le> cmp) xs \<and>
     filter (\<lambda>e. cmp < fst e) xs = dropWhile (\<lambda>e. fst e \<le> cmp) xs"
proof (induction xs)
  case Nil
  then show ?case by simp
next
  case (Cons a xs)
  show ?case
  proof (cases "fst a \<le> cmp")
    case True
    with Cons show ?thesis by simp
  next
    case False
    with Cons.prems have "\<forall>e\<in>set xs. cmp < fst e" by auto
    then have "filter (\<lambda>e. cmp < fst e) xs = xs" "filter (\<lambda>e. fst e \<le> cmp) xs = []"
      by (auto simp: filter_empty_conv)
    with False show ?thesis by simp
  qed
qed

text \<open>Both operations of the loopback source keep the collection in key order.\<close>

lemma LoopUser_addFrame_keeps_order:
  assumes "sorted (map fst (qmPackets w))"
    and "LoopUser_addFrame RAND_MAX this env packet w = Inr w'"
  shows "sorted (map fst (qmPackets w'))"
  using assms
  by (auto simp: LoopUser_addFrame_def LoopUser_addFrame_locked_def
        LoopUser_addFrame_restart_check_def Let_def sorted_mm_insert
      split: if_splits option.splits list.splits)

lemma LoopUser_fetchFrames_keeps_order:
  assumes "sorted (map fst (qmPackets w))"
  shows "sorted (map fst (qmPackets (LoopUser_fetchFrames pds this env w)))"
  using assms drain_sorted [OF assms]
  by (auto simp: LoopUser_fetchFrames_def Let_def sorted_filter split: option.splits)

subsection \<open>Draining\<close>

text \<open>
  Claim C3. With a render device present and the entries in key order (which
  \<open>mm_insert\<close> keeps, see \<open>sorted_mm_insert\<close>), \<open>fetchFrames\<close> at ticker time \<open>now\<close>
  (the elapsed milliseconds as a \<open>double\<close>) removes exactly the entries with key at
  most \<open>now\<close> and hands them to the device
  in the order of the collection, which is non-decreasing in the key; the entries
  delivered are the longest prefix with keys at most \<open>now\<close>, so the loop stops at the
  first entry with a greater key, and every entry with a greater key stays. The witness
  is the example of the specification: keys inserted as 5, 1, 3 are delivered as
  1, 3, 5 at time 5.
\<close>

theorem fetchFrames_drains_due_in_key_order:
  assumes "g_ao w = Some calls" and "sorted (map fst (qmPackets w))"
  shows "let now = Finite (to_double (real_of_int (elapsed (clock_cmp env) (qetTicker w))));
             w' = LoopUser_fetchFrames pds this env w;
             due = filter (\<lambda>e. fst e \<le> now) (qmPackets w)
         in qmPackets w' = filter (\<lambda>e. now < fst e) (qmPackets w) \<and>
            g_ao w' = Some (calls @ map (\<lambda>e. deliver pds this (snd e)) due) \<and>
            sorted (map fst due) \<and>
            due = takeWhile (\<lambda>e. fst e \<le> now) (qmPackets w) \<and>
            qmPackets w' = dropWhile (\<lambda>e. fst e \<le> now) (qmPackets w)"
proof (cases "qmPackets w = []")
  case True
  with assms show ?thesis by (simp add: LoopUser_fetchFrames_def)
next
  case False
  define now where "now = to_double (real_of_int (elapsed (clock_cmp env) (qetTicker w)))"
  have d: "drain pds this now (qmPackets w) calls =
      (filter (\<lambda>e. Finite now < fst e) (qmPackets w),
       calls @ map (\<lambda>e. deliver pds this (snd e))
                 (filter (\<lambda>e. fst e \<le> Finite now) (qmPackets w)))"
    using assms(2) by (rule drain_sorted)
  have s: "sorted (map fst (filter (\<lambda>e. fst e \<le> Finite now) (qmPackets w)))"
    using assms(2) by (simp add: sorted_filter)
  from False assms(1) d s due_prefix [OF assms(2), of "Finite now"] show ?thesis
    by (simp add: LoopUser_fetchFrames_def Let_def now_def [symmetric])
qed

theorem fetchFrames_drains_due_in_key_order_witness:
  "g_ao ((LoopUser_ctor (Some []) 0 0 0)
           \<lparr>qmPackets := mm_insert (Finite 3) [0x80, 3]
                           (mm_insert (Finite 1) [0x80, 1] (mm_insert (Finite 5) [0x80, 5] []))\<rparr>)
     = Some [] \<and>
   sorted (map fst (qmPackets ((LoopUser_ctor (Some []) 0 0 0)
           \<lparr>qmPackets := mm_insert (Finite 3) [0x80, 3]
                           (mm_insert (Finite 1) [0x80, 1] (mm_insert (Finite 5) [0x80, 5] []))\<rparr>))) \<and>
   g_ao (LoopUser_fetchFrames sample_pds 7 \<lparr>clock_cmp = 5, clock_fetched = 5\<rparr>
          ((LoopUser_ctor (Some []) 0 0 0)
           \<lparr>qmPackets := mm_insert (Finite 3) [0x80, 3]
                           (mm_insert (Finite 1) [0x80, 1] (mm_insert (Finite 5) [0x80, 5] []))\<rparr>))
     = Some [AddFrameToBuffer 7 [0x80] 1 4, AddFrameToBuffer 7 [0x80] 3 4,
             AddFrameToBuffer 7 [0x80] 5 4] \<and>
   qmPackets (LoopUser_fetchFrames sample_pds 7 \<lparr>clock_cmp = 5, clock_fetched = 5\<rparr>
          ((LoopUser_ctor (Some []) 0 0 0)
           \<lparr>qmPackets := mm_insert (Finite 3) [0x80, 3]
                           (mm_insert (Finite 1) [0x80, 1] (mm_insert (Finite 5) [0x80, 5] []))\<rparr>))
     = []"
  using fetchFrames_drains_due_in_key_order
    [of "(LoopUser_ctor (Some []) 0 0 0)
           \<lparr>qmPackets := mm_insert (Finite 3) [0x80, 3]
                           (mm_insert (Finite 1) [0x80, 1] (mm_insert (Finite 5) [0x80, 5] []))\<rparr>"
        "[]" "\<lparr>clock_cmp = 5, clock_fetched = 5\<rparr>" sample_pds 7]
  by (simp add: LoopUser_ctor_def elapsed_def deliver_def sample_pds_def Let_def
        to_double_numeral)



subsection \<open>Bits of the flags byte\<close>

lemma bit_7_int: "bit (7::int) n \<longleftrightarrow> n < 3"
proof -
  have "(7::int) = mask 3" by (simp add: mask_eq_exp_minus_1)
  show ?thesis unfolding \<open>(7::int) = mask 3\<close> by (auto simp add: bit_mask_iff)
qed

lemma msgType_shift_signed: "(signed_drop_bit 5 (scast c :: 32 word) AND 7) = ucast (drop_bit 5 (c::8 word))"
proof (rule bit_word_eqI)
  fix n :: nat
  assume "n < LENGTH(32)"
  have top: "bit c (5 + n) \<Longrightarrow> n < 3"
    using bit_imp_le_length [of c "5 + n"] by simp
  show "bit (signed_drop_bit 5 (scast c :: 32 word) AND 7) n
          = bit (ucast (drop_bit 5 c) :: 32 word) n"
  proof (cases "n = 2")
    case True
    then show ?thesis by (simp add: bit_simps bit_7_int)
  next
    case False
    then show ?thesis using top
      by (auto simp: bit_simps bit_7_int min_def)
  qed
qed

lemma msgType_shift_flags: "(drop_bit 5 (ucast (n::64 word) :: 32 word) AND 7) = ucast (drop_bit 5 (ucast n :: 8 word))"
  apply (rule bit_word_eqI)
  apply (auto simp: bit_simps bit_7_int dest: bit_imp_le_length)
  done

lemma unat_ucast_8_32: "unat (ucast (x :: 8 word) :: 32 word) = unat x"
proof -
  have "unat x < 2 ^ 8" using unsigned_less [of x] by simp
  then have "unat x < 2 ^ 32" by simp
  then show ?thesis by (simp add: unsigned_ucast_eq take_bit_nat_eq_self)
qed

lemma msgType_of_char_top3: "msgType_of_char c = unat (drop_bit 5 c)"
  unfolding msgType_of_char_def msgType_shift_signed by (rule unat_ucast_8_32)


subsection \<open>Delivery\<close>

text \<open>
  The loop stops at once in front of an entry that is not due; and what the device
  receives for a packet, in terms of the three values read from the stream.
\<close>

lemma drain_not_due:
  "xs \<noteq> [] \<Longrightarrow> Finite cmp < fst (hd xs) \<Longrightarrow> drain pds this cmp xs calls = (xs, calls)"
  by (cases xs) auto

lemma ucast_flags: "(ucast (ucast (n :: 64 word) :: 32 word) :: 8 word) = ucast n"
  by (rule bit_word_eqI) (auto simp: bit_simps)

lemma deliver_eq:
  "pds data = (nxt, iSeq, rest) \<Longrightarrow>
   deliver pds this data =
     AddFrameToBuffer this (ucast nxt # rest) iSeq (unat (drop_bit 5 (ucast nxt :: 8 word)))"
  by (simp add: deliver_def Let_def ucast_flags msgType_shift_flags unat_ucast_8_32)

subsection \<open>The stall timer\<close>

text \<open>
  Claim C5 as stated fails when the collection is empty: \<open>fetchFrames\<close> returns at
  \<open>if (!ao || qmPackets.isEmpty()) return;\<close>, before \<open>qetLastFetch.restart()\<close>. With a
  device present, no packet pending, the timer started at 0 and the clock at 500, the
  timer still reads 0 after the call.
\<close>

theorem fetchFrames_empty_keeps_stall_timer:
  "g_ao (LoopUser_ctor (Some []) 0 0 0) = Some [] \<and>
   qmPackets (LoopUser_ctor (Some []) 0 0 0) = [] \<and>
   qetLastFetch (LoopUser_fetchFrames sample_pds 7 \<lparr>clock_cmp = 500, clock_fetched = 500\<rparr>
                   (LoopUser_ctor (Some []) 0 0 0)) = 0 \<and>
   qetLastFetch (LoopUser_fetchFrames sample_pds 7 \<lparr>clock_cmp = 500, clock_fetched = 500\<rparr>
                   (LoopUser_ctor (Some []) 0 0 0))
     \<noteq> clock_fetched \<lparr>clock_cmp = 500, clock_fetched = 500\<rparr>"
  by (simp add: LoopUser_fetchFrames_def LoopUser_ctor_def)

text \<open>
  Claim C5, amended. For every \<open>fetchFrames\<close> call with a render device present and a
  pending collection that is not empty, the stall timer is restarted at the clock value
  of the call, whether or not an entry was removed; in particular, when every entry's
  key exceeds \<open>now\<close> nothing changes but the timer. With an empty collection the call
  returns at once and changes nothing, the timer included.
\<close>

theorem fetchFrames_resets_stall_timer_when_pending:
  assumes "g_ao w = Some calls"
  shows "(qmPackets w \<noteq> [] \<longrightarrow>
            qetLastFetch (LoopUser_fetchFrames pds this env w) = clock_fetched env) \<and>
         (qmPackets w \<noteq> [] \<and>
          (\<forall>e \<in> set (qmPackets w). Finite (to_double (real_of_int (elapsed (clock_cmp env) (qetTicker w)))) < fst e) \<longrightarrow>
            LoopUser_fetchFrames pds this env w = w\<lparr>qetLastFetch := clock_fetched env\<rparr>) \<and>
         (qmPackets w = [] \<longrightarrow> LoopUser_fetchFrames pds this env w = w)"
proof (intro conjI impI)
  assume "qmPackets w \<noteq> []"
  with assms show "qetLastFetch (LoopUser_fetchFrames pds this env w) = clock_fetched env"
    by (simp add: LoopUser_fetchFrames_def Let_def split: prod.split)
next
  assume a: "qmPackets w \<noteq> [] \<and>
    (\<forall>e \<in> set (qmPackets w). Finite (to_double (real_of_int (elapsed (clock_cmp env) (qetTicker w)))) < fst e)"
  then have "Finite (to_double (real_of_int (elapsed (clock_cmp env) (qetTicker w)))) < fst (hd (qmPackets w))"
    by simp
  with a have "drain pds this (to_double (real_of_int (elapsed (clock_cmp env) (qetTicker w))))
                 (qmPackets w) calls = (qmPackets w, calls)"
    by (simp add: drain_not_due)
  with a assms show "LoopUser_fetchFrames pds this env w = w\<lparr>qetLastFetch := clock_fetched env\<rparr>"
    by (simp add: LoopUser_fetchFrames_def Let_def)
next
  assume "qmPackets w = []"
  with assms show "LoopUser_fetchFrames pds this env w = w"
    by (simp add: LoopUser_fetchFrames_def)
qed

theorem fetchFrames_resets_stall_timer_when_pending_witness:
  "g_ao ((LoopUser_ctor (Some []) 0 0 0)\<lparr>qmPackets := [(Finite 900, [0x80, 1])]\<rparr>) = Some [] \<and>
   qmPackets ((LoopUser_ctor (Some []) 0 0 0)\<lparr>qmPackets := [(Finite 900, [0x80, 1])]\<rparr>) \<noteq> [] \<and>
   Finite (to_double (real_of_int (elapsed 500 (qetTicker (LoopUser_ctor (Some []) 0 0 0)))))
     < Finite 900 \<and>
   LoopUser_fetchFrames sample_pds 7 \<lparr>clock_cmp = 500, clock_fetched = 501\<rparr>
       ((LoopUser_ctor (Some []) 0 0 0)\<lparr>qmPackets := [(Finite 900, [0x80, 1])]\<rparr>)
     = (LoopUser_ctor (Some []) 0 0 0)\<lparr>qmPackets := [(Finite 900, [0x80, 1])], qetLastFetch := 501\<rparr>"
  using fetchFrames_resets_stall_timer_when_pending
    [of "(LoopUser_ctor (Some []) 0 0 0)\<lparr>qmPackets := [(Finite 900, [0x80, 1])]\<rparr>" "[]"
        sample_pds 7 "\<lparr>clock_cmp = 500, clock_fetched = 501\<rparr>"]
  by (simp add: LoopUser_ctor_def elapsed_def to_double_numeral)

subsection \<open>RecordUser::addFrame\<close>

text \<open>
  Claim C9. With a render device present, \<open>RecordUser::addFrame\<close> hands the frame to
  the device at once, with the sequence number read from the stream and the message
  type in bits 5 to 7 of the flags byte; nothing else changes (no entry is scheduled,
  no random number is drawn, nothing is logged), and the configured loss probability
  has no influence on the result. With no device, the state is unchanged.
\<close>

theorem RecordUser_addFrame_immediate:
  "(g_ao w = Some calls \<and> pds packet = (nxt, iSeq, rest) \<longrightarrow>
      RecordUser_addFrame pds this packet w =
        w\<lparr>g_ao := Some (calls @ [AddFrameToBuffer this (ucast nxt # rest) iSeq
                                   (unat (drop_bit 5 (ucast nxt :: 8 word)))])\<rparr>) \<and>
   (g_ao w = None \<longrightarrow> RecordUser_addFrame pds this packet w = w) \<and>
   RecordUser_addFrame pds this packet (w\<lparr>dPacketLoss := p\<rparr>) =
     (RecordUser_addFrame pds this packet w)\<lparr>dPacketLoss := p\<rparr>"
  by (auto simp: RecordUser_addFrame_def deliver_eq split: option.split)

theorem RecordUser_addFrame_immediate_witness:
  "g_ao (LoopUser_ctor (Some []) 1 0 0) = Some [] \<and>
   sample_pds [0x80, 9, 0x55] = (0x80, 9, [0x55]) \<and>
   RecordUser_addFrame sample_pds 7 [0x80, 9, 0x55] (LoopUser_ctor (Some []) 1 0 0) =
     (LoopUser_ctor (Some []) 1 0 0)\<lparr>g_ao := Some [AddFrameToBuffer 7 [0x80, 0x55] 9 4]\<rparr> \<and>
   g_ao (LoopUser_ctor None 1 0 0) = None \<and>
   RecordUser_addFrame sample_pds 7 [0x80, 9, 0x55] (LoopUser_ctor None 1 0 0) =
     LoopUser_ctor None 1 0 0"
proof -
  have present: "g_ao (LoopUser_ctor (Some []) 1 0 0) = Some []"
    and absent: "g_ao (LoopUser_ctor None 1 0 0) = None"
    by (simp_all add: LoopUser_ctor_def)
  have parsed: "sample_pds [0x80, 9, 0x55] = (0x80, 9, [0x55])"
    by (simp add: sample_pds_def)
  from present parsed
    RecordUser_addFrame_immediate
      [of "LoopUser_ctor (Some []) 1 0 0" "[]" sample_pds "[0x80, 9, 0x55]" "0x80" 9 "[0x55]" 7 0]
  have "RecordUser_addFrame sample_pds 7 [0x80, 9, 0x55] (LoopUser_ctor (Some []) 1 0 0) =
     (LoopUser_ctor (Some []) 1 0 0)\<lparr>g_ao := Some [AddFrameToBuffer 7 [0x80, 0x55] 9 4]\<rparr>"
    by simp
  moreover from absent
    RecordUser_addFrame_immediate
      [of "LoopUser_ctor None 1 0 0" "[]" sample_pds "[0x80, 9, 0x55]" "0x80" 9 "[0x55]" 7 0]
  have "RecordUser_addFrame sample_pds 7 [0x80, 9, 0x55] (LoopUser_ctor None 1 0 0) =
     LoopUser_ctor None 1 0 0"
    by simp
  ultimately show ?thesis using present absent parsed by simp
qed

subsection \<open>LoopUser::addFrame: loss\<close>

text \<open>
  Claim C8 (every frame is dropped when the loss probability is 1.0, whatever the random
  draw) does not hold for the code: \<open>DOUBLE_RAND\<close> divides by \<open>RAND_MAX\<close>, so the draw
  \<open>rand() = RAND_MAX\<close> gives exactly 1.0, and \<open>1.0 < 1.0\<close> is false. The frame is then
  scheduled like any surviving frame. The evaluation below is for
  \<open>RAND_MAX = 2147483647\<close>; \<open>addFrame_full_loss_drops_iff\<close> shows, for every positive
  \<open>RAND_MAX\<close> that a double holds exactly, that this draw is the only one that is not
  dropped.
\<close>

theorem addFrame_full_loss_keeps_frame_at_RAND_MAX:
  "dPacketLoss (LoopUser_ctor None 1 0 0) = 1 \<and>
   LoopUser_addFrame 2147483647 7
      \<lparr>rand_loss = 2147483647, rand_delay = 0,
       clock_restart = 10, clock_ticker = 10, clock_recheck = 10\<rparr>
      [0x80, 1] (LoopUser_ctor None 1 0 0)
    = Inr ((LoopUser_ctor None 1 0 0)\<lparr>qmPackets := [(Finite 10, [0x80, 1])]\<rparr>)"
  by (simp add: LoopUser_addFrame_def LoopUser_addFrame_locked_def
        LoopUser_addFrame_restart_check_def LoopUser_ctor_def elapsed_def
        DOUBLE_RAND_RAND_MAX to_double_numeral static_cast_float_numeral)

lemma addFrame_full_loss_drops_iff:
  assumes "0 < RAND_MAX" and "RAND_MAX \<le> 2 ^ 53" and "dPacketLoss w = 1"
  shows "(LoopUser_addFrame RAND_MAX this env packet w = Inr (w\<lparr>qWarning := qWarning w @ [''Drop'']\<rparr>))
           = (rand_loss env < RAND_MAX)"
proof (cases "rand_loss env < RAND_MAX")
  case True
  with assms show ?thesis
    by (simp add: LoopUser_addFrame_def DOUBLE_RAND_less_1)
next
  case False
  from False assms have "\<not> DOUBLE_RAND RAND_MAX (rand_loss env) < dPacketLoss w"
    by (simp add: DOUBLE_RAND_less_1)
  then have "\<And>w'. LoopUser_addFrame RAND_MAX this env packet w = Inr w' \<Longrightarrow> qWarning w' = qWarning w"
    by (auto simp: LoopUser_addFrame_def LoopUser_addFrame_locked_def
          LoopUser_addFrame_restart_check_def Let_def
        split: if_splits option.splits list.splits)
  then have "LoopUser_addFrame RAND_MAX this env packet w \<noteq> Inr (w\<lparr>qWarning := qWarning w @ [''Drop'']\<rparr>)"
    by fastforce
  with False show ?thesis by simp
qed

subsection \<open>The scheduled key and delay\<close>

text \<open>
  The key at one draw, each operation rounded: ticker 1000 ms, draw 1288493465 of
  \<open>RAND_MAX = 2147483647\<close>, maximum delay 20 ms. The sum in \<open>double\<close> is
  \<open>33161217 / 32768\<close>, half way between two floats, and the conversion takes the even
  one, 1012.
\<close>

lemma addFrame_key_example:
  "qmPackets (LoopUser_addFrame_locked 2147483647
      \<lparr>rand_loss = 0, rand_delay = 1288493465,
       clock_restart = 1000, clock_ticker = 1000, clock_recheck = 1000\<rparr>
      [0x80, 1] ((LoopUser_ctor None 0 20 0)\<lparr>qetLastFetch := 950\<rparr>))
   = [(Finite 1012, [0x80, 1])]"
  by (simp add: LoopUser_addFrame_locked_def LoopUser_ctor_def elapsed_def DOUBLE_RAND_def
        to_double_def static_cast_float_def round_to_def ilog2_def rne_def compute_floorlog
        Let_def)

text \<open>
  The error of a rounding to \<open>double\<close>, relative in the normal range and absolute below.
\<close>

lemma to_double_error:
  "\<bar>to_double x - x\<bar> \<le> \<bar>x\<bar> / 2 ^ 53 + 1 / 2 ^ 1075"
proof (cases "x = 0")
  case True
  then show ?thesis by simp
next
  case False
  then have pos: "0 < \<bar>x\<bar>" by simp
  define L where "L = ilog2 \<bar>x\<bar>"
  have "\<bar>to_double x - x\<bar> \<le> 2 powi (max (L - (int 53 - 1)) (- 1074) - 1)"
    unfolding to_double_def L_def by (rule round_to_nearest)
  also have "\<dots> \<le> 2 powi (L - 53) + 2 powi (- 1075)"
  proof (cases "L - 52 \<le> - 1074")
    case True
    then have "max (L - (int 53 - 1)) (- 1074) - 1 = - 1075" by simp
    then show ?thesis by simp
  next
    case False
    then have "max (L - (int 53 - 1)) (- 1074) - 1 = L - 53" by simp
    then show ?thesis by simp
  qed
  also have "(2::real) powi (L - 53) = 2 powi L / 2 ^ 53"
    by (simp add: power_int_diff)
  also have "2 powi L / 2 ^ 53 \<le> \<bar>x\<bar> / 2 ^ 53"
    using ilog2_bounds [OF pos] unfolding L_def by (simp add: divide_right_mono)
  also have "(2::real) powi (- 1075) = 1 / 2 ^ 1075"
    by (simp add: power_int_minus field_simps)
  finally show ?thesis by simp
qed

text \<open>
  The delay of a frame that is not a restart, as a function of the draw: it lies between
  0 and the maximum delay, is 0 at draw 0 and the maximum at draw \<open>RAND_MAX\<close>, does not
  decrease with the draw, and is the draw scaled linearly onto that interval, up to the
  two roundings.
\<close>

lemma delay_range:
  assumes "0 < RAND_MAX" and "rand \<le> RAND_MAX" and "0 \<le> m" and "to_double m = m"
  shows "0 \<le> to_double (DOUBLE_RAND RAND_MAX rand * m) \<and>
         to_double (DOUBLE_RAND RAND_MAX rand * m) \<le> m"
proof -
  from DOUBLE_RAND_range [OF assms(1,2)]
  have d: "0 \<le> DOUBLE_RAND RAND_MAX rand" "DOUBLE_RAND RAND_MAX rand \<le> 1" by simp_all
  have lo: "0 \<le> DOUBLE_RAND RAND_MAX rand * m" using d(1) assms(3) by simp
  have hi: "DOUBLE_RAND RAND_MAX rand * m \<le> m"
    using mult_right_mono [OF d(2) assms(3)] by simp
  from to_double_nonneg [OF lo] to_double_mono [OF lo hi] assms(4) show ?thesis by simp
qed

lemma delay_mono:
  assumes "0 < RAND_MAX" and "rand \<le> rand'" and "0 \<le> m"
  shows "to_double (DOUBLE_RAND RAND_MAX rand * m) \<le> to_double (DOUBLE_RAND RAND_MAX rand' * m)"
proof -
  have "0 \<le> DOUBLE_RAND RAND_MAX rand"
    using DOUBLE_RAND_mono [OF assms(1), of 0 rand] by simp
  then have lo: "0 \<le> DOUBLE_RAND RAND_MAX rand * m" using assms(3) by simp
  have "DOUBLE_RAND RAND_MAX rand * m \<le> DOUBLE_RAND RAND_MAX rand' * m"
    using DOUBLE_RAND_mono [OF assms(1,2)] assms(3) by (simp add: mult_right_mono)
  from to_double_mono [OF lo this] show ?thesis .
qed

lemma delay_ends:
  assumes "0 < RAND_MAX" and "to_double m = m"
  shows "to_double (DOUBLE_RAND RAND_MAX 0 * m) = 0 \<and>
         to_double (DOUBLE_RAND RAND_MAX RAND_MAX * m) = m"
  using assms by (simp add: DOUBLE_RAND_RAND_MAX)

lemma delay_linear:
  assumes "0 < RAND_MAX" and "RAND_MAX \<le> 2 ^ 53" and "rand \<le> RAND_MAX" and "0 \<le> m"
  shows "\<bar>to_double (DOUBLE_RAND RAND_MAX rand * m) - real rand / real RAND_MAX * m\<bar>
           \<le> m / 2 ^ 52 + (1 + m) / 2 ^ 1075"
proof -
  define q where "q = real rand / real RAND_MAX"
  define D where "D = DOUBLE_RAND RAND_MAX rand"
  have q0: "0 \<le> q" by (simp add: q_def)
  have q1: "q \<le> 1" using assms(1,3) by (simp add: q_def)
  have Dq: "D = to_double q"
    using assms by (simp add: D_def q_def DOUBLE_RAND_def to_double_of_nat)
  from DOUBLE_RAND_range [OF assms(1,3)] have D0: "0 \<le> D" and D1: "D \<le> 1"
    by (simp_all add: D_def)
  have e1: "\<bar>D - q\<bar> \<le> q / 2 ^ 53 + 1 / 2 ^ 1075"
    using to_double_error [of q] q0 by (simp add: Dq)
  have e2: "\<bar>to_double (D * m) - D * m\<bar> \<le> D * m / 2 ^ 53 + 1 / 2 ^ 1075"
    using to_double_error [of "D * m"] D0 assms(4) by (simp add: abs_mult)
  have "\<bar>to_double (D * m) - q * m\<bar> \<le> \<bar>to_double (D * m) - D * m\<bar> + \<bar>D - q\<bar> * m"
  proof -
    have "to_double (D * m) - q * m = (to_double (D * m) - D * m) + (D - q) * m"
      by (simp add: algebra_simps)
    then have "\<bar>to_double (D * m) - q * m\<bar> \<le> \<bar>to_double (D * m) - D * m\<bar> + \<bar>(D - q) * m\<bar>"
      by (simp only: abs_triangle_ineq)
    then show ?thesis using assms(4) by (simp add: abs_mult)
  qed
  also have "\<dots> \<le> (D * m / 2 ^ 53 + 1 / 2 ^ 1075) + (q / 2 ^ 53 + 1 / 2 ^ 1075) * m"
    using e1 e2 assms(4) by (intro add_mono mult_right_mono) simp_all
  also have "\<dots> \<le> (m / 2 ^ 53 + 1 / 2 ^ 1075) + (1 / 2 ^ 53 + 1 / 2 ^ 1075) * m"
  proof -
    have "D * m \<le> m" using mult_right_mono [OF D1 assms(4)] by simp
    then have a: "D * m / 2 ^ 53 \<le> m / 2 ^ 53" by (simp add: divide_right_mono)
    have b: "q / 2 ^ 53 \<le> 1 / 2 ^ 53" using q1 by (simp add: divide_right_mono)
    show ?thesis using a b assms(4) by (intro add_mono mult_right_mono) simp_all
  qed
  also have "\<dots> = m / 2 ^ 52 + (1 + m) / 2 ^ 1075"
    by (simp add: field_simps)
  finally show ?thesis unfolding D_def q_def .
qed

subsection \<open>No render device\<close>

text \<open>
  Claim C10. With no render device active (\<open>g.ao\<close> null), a frame that survives the
  loss draw is still inserted by \<open>LoopUser::addFrame\<close>: the collection grows by one
  entry on each such call and nothing else of the state changes; \<open>fetchFrames\<close> removes
  nothing as long as there is no device, so the entries accumulate. In contrast,
  \<open>RecordUser::addFrame\<close> returns the state as it was. The key of the entry is the one
  the code computes, each operation on a \<open>double\<close> rounded.
\<close>

theorem addFrame_without_device:
  assumes "g_ao w = None"
    and "\<not> DOUBLE_RAND RAND_MAX (rand_loss env) < dPacketLoss w"
  shows "let time = to_double (real_of_int (elapsed (clock_ticker env) (qetTicker w)));
             r = (if elapsed (clock_restart env) (qetLastFetch w) > 100 then 0
                  else to_double (DOUBLE_RAND RAND_MAX (rand_delay env) * dMaxPacketDelay w));
             key = static_cast_float (to_double (time + r));
             w' = w\<lparr>qmPackets := mm_insert key packet (qmPackets w)\<rparr>
         in LoopUser_addFrame RAND_MAX this env packet w = Inr w' \<and>
            length (qmPackets w') = Suc (length (qmPackets w)) \<and>
            LoopUser_fetchFrames pds this fetch_env w' = w' \<and>
            RecordUser_addFrame pds this' packet w = w"
  using assms
  by (simp add: LoopUser_addFrame_def LoopUser_addFrame_locked_def
        LoopUser_addFrame_restart_check_def LoopUser_fetchFrames_def RecordUser_addFrame_def Let_def
        length_mm_insert)

theorem addFrame_without_device_witness:
  "g_ao (LoopUser_ctor None 0 0 0) = None \<and>
   \<not> DOUBLE_RAND 2147483647 5 < dPacketLoss (LoopUser_ctor None 0 0 0) \<and>
   LoopUser_addFrame 2147483647 7
      \<lparr>rand_loss = 5, rand_delay = 0, clock_restart = 10, clock_ticker = 10, clock_recheck = 10\<rparr>
      [0x80, 1] (LoopUser_ctor None 0 0 0)
    = Inr ((LoopUser_ctor None 0 0 0)\<lparr>qmPackets := [(Finite 10, [0x80, 1])]\<rparr>) \<and>
   RecordUser_addFrame sample_pds 8 [0x80, 1] (LoopUser_ctor None 0 0 0) = LoopUser_ctor None 0 0 0"
proof -
  have absent: "g_ao (LoopUser_ctor None 0 0 0) = None"
    by (simp add: LoopUser_ctor_def)
  have "0 \<le> DOUBLE_RAND 2147483647 5"
    using DOUBLE_RAND_range [of 2147483647 5] by simp
  then have survives: "\<not> DOUBLE_RAND 2147483647 5 < dPacketLoss (LoopUser_ctor None 0 0 0)"
    by (simp add: LoopUser_ctor_def)
  from addFrame_without_device
    [where w = "LoopUser_ctor None 0 0 0" and RAND_MAX = 2147483647
        and env = "\<lparr>rand_loss = 5, rand_delay = 0, clock_restart = 10, clock_ticker = 10,
                    clock_recheck = 10\<rparr>"
        and this = 7 and packet = "[0x80, 1]" and pds = sample_pds and this' = 8
        and fetch_env = "\<lparr>clock_cmp = 10, clock_fetched = 10\<rparr>"]
    absent survives
  have "LoopUser_addFrame 2147483647 7
      \<lparr>rand_loss = 5, rand_delay = 0, clock_restart = 10, clock_ticker = 10, clock_recheck = 10\<rparr>
      [0x80, 1] (LoopUser_ctor None 0 0 0)
    = Inr ((LoopUser_ctor None 0 0 0)\<lparr>qmPackets := [(Finite 10, [0x80, 1])]\<rparr>) \<and>
   RecordUser_addFrame sample_pds 8 [0x80, 1] (LoopUser_ctor None 0 0 0) = LoopUser_ctor None 0 0 0"
    by (simp add: Let_def LoopUser_ctor_def elapsed_def to_double_numeral
          static_cast_float_numeral)
  with absent survives show ?thesis by simp
qed

subsection \<open>LoopUser::addFrame: restart and delay\<close>

text \<open>
  Claim C4 as stated says that on a restart the arrival key equals the current ticker
  time. The key is \<open>static_cast<float>(time + r)\<close>: a \<open>float\<close> has a 24-bit
  significand, so a millisecond count above \<open>2^24\<close> (about 4 hours 40 minutes after the
  ticker was started) is rounded. At ticker time 16777219, with more than 100 ms since
  the last fetch, the entry is keyed 16777220: between \<open>2^24\<close> and \<open>2^25\<close> the floats
  are the even integers, so no rounding rule could give 16777219.
\<close>

theorem addFrame_restart_key_is_rounded:
  "\<not> DOUBLE_RAND 2147483647 0 < dPacketLoss (LoopUser_ctor (Some []) 0 0 0) \<and>
   elapsed 16777219 (qetLastFetch (LoopUser_ctor (Some []) 0 0 0)) > 100 \<and>
   elapsed 16777219 (qetTicker (LoopUser_ctor (Some []) 0 0 0)) = 16777219 \<and>
   LoopUser_addFrame 2147483647 7
      \<lparr>rand_loss = 0, rand_delay = 0,
       clock_restart = 16777219, clock_ticker = 16777219, clock_recheck = 16777219\<rparr>
      [0x80, 1] (LoopUser_ctor (Some []) 0 0 0)
    = Inr ((LoopUser_ctor (Some []) 0 0 0)
             \<lparr>qmPackets := [(Finite 16777220, [0x80, 1])],
              g_ao := Some [AddFrameToBuffer 7 [] 0 4]\<rparr>) \<and>
   Finite 16777220 \<noteq> Finite (real_of_int (elapsed 16777219 (qetTicker (LoopUser_ctor (Some []) 0 0 0))))"
  by (simp add: LoopUser_addFrame_def LoopUser_addFrame_locked_def
        LoopUser_addFrame_restart_check_def LoopUser_ctor_def elapsed_def
        to_double_numeral static_cast_float_def round_to_def ilog2_def rne_def
        compute_floorlog Let_def msgType_of_char_top3)

text \<open>
  Claim C4, amended. For every \<open>addFrame\<close> call on the loopback source whose frame
  survives the loss draw and has a first byte \<open>c\<close>, with a clock that does not go back
  between the two reads of \<open>qetLastFetch\<close>:
  \<^item> when more than 100 ms have elapsed since the last fetch, the delay is zero: the key
    is the ticker time converted to \<open>float\<close>, which is the ticker time itself as long
    as that is at most \<open>2^24\<close> ms; and if a render device is active, it receives one
    call with empty payload, sequence number 0 and the message type in the top three
    bits of \<open>c\<close>; nothing else changes;
  \<^item> otherwise the key is the conversion of ticker time plus the delay \<open>r\<close>, the
    \<open>double\<close> computed as \<open>rand() / RAND_MAX * dMaxPacketDelay\<close>; \<open>r\<close> lies between 0
    and the configured maximum delay (for a maximum delay that is not negative), and it
    is the draw scaled linearly onto that interval, up to the two roundings: over draws
    that are uniform on \<open>0 .. RAND_MAX\<close>, a uniform value in that interval.
  That \<open>rand()\<close> is uniform is a property of the C library.
\<close>

theorem addFrame_restart_and_delay:
  assumes survives: "\<not> DOUBLE_RAND RAND_MAX (rand_loss env) < dPacketLoss w"
    and monotonic: "clock_restart env \<le> clock_recheck env"
    and first_byte: "packet = c # cs"
  shows
    "let ticker = elapsed (clock_ticker env) (qetTicker w);
         time = to_double (real_of_int ticker);
         stalled = (elapsed (clock_restart env) (qetLastFetch w) > 100);
         r = to_double (DOUBLE_RAND RAND_MAX (rand_delay env) * dMaxPacketDelay w);
         primed = (case g_ao w of
                     None \<Rightarrow> None
                   | Some calls \<Rightarrow>
                       Some (calls @ [AddFrameToBuffer this [] 0 (unat (drop_bit 5 c))]));
         result = LoopUser_addFrame RAND_MAX this env packet w
     in (stalled \<longrightarrow>
           result =
             Inr (w\<lparr>qmPackets := mm_insert (static_cast_float time) packet (qmPackets w),
                    g_ao := primed\<rparr>)) \<and>
        (0 \<le> ticker \<and> ticker \<le> 2 ^ 24 \<longrightarrow>
           static_cast_float time = Finite (real_of_int ticker)) \<and>
        (\<not> stalled \<longrightarrow>
           result =
             Inr (w\<lparr>qmPackets :=
                      mm_insert (static_cast_float (to_double (time + r))) packet (qmPackets w),
                    g_ao := (if elapsed (clock_recheck env) (qetLastFetch w) > 100
                             then primed else g_ao w)\<rparr>) \<and>
           (0 < RAND_MAX \<and> rand_delay env \<le> RAND_MAX \<and> 0 \<le> dMaxPacketDelay w \<and>
            to_double (dMaxPacketDelay w) = dMaxPacketDelay w \<longrightarrow>
              0 \<le> r \<and> r \<le> dMaxPacketDelay w) \<and>
           (0 < RAND_MAX \<and> RAND_MAX \<le> 2 ^ 53 \<and> rand_delay env \<le> RAND_MAX \<and>
            0 \<le> dMaxPacketDelay w \<longrightarrow>
              \<bar>r - real (rand_delay env) / real RAND_MAX * dMaxPacketDelay w\<bar>
                \<le> dMaxPacketDelay w / 2 ^ 52 + (1 + dMaxPacketDelay w) / 2 ^ 1075))"
proof -
  let ?ticker = "elapsed (clock_ticker env) (qetTicker w)"
  let ?time = "to_double (real_of_int ?ticker)"
  let ?r = "to_double (DOUBLE_RAND RAND_MAX (rand_delay env) * dMaxPacketDelay w)"
  let ?primed = "case g_ao w of
                   None \<Rightarrow> None
                 | Some calls \<Rightarrow>
                     Some (calls @ [AddFrameToBuffer this [] 0 (unat (drop_bit 5 c))])"
  have restart: "elapsed (clock_recheck env) (qetLastFetch w) > 100"
    if "elapsed (clock_restart env) (qetLastFetch w) > 100"
    using that monotonic by (simp add: elapsed_def)
  have stalled_case:
    "LoopUser_addFrame RAND_MAX this env packet w =
       Inr (w\<lparr>qmPackets := mm_insert (static_cast_float ?time) packet (qmPackets w),
              g_ao := ?primed\<rparr>)"
    if "elapsed (clock_restart env) (qetLastFetch w) > 100"
    using that restart [OF that] survives first_byte
    by (cases "g_ao w") (simp_all add: LoopUser_addFrame_def LoopUser_addFrame_locked_def
        LoopUser_addFrame_restart_check_def Let_def msgType_of_char_top3)
  have paced_case:
    "LoopUser_addFrame RAND_MAX this env packet w =
       Inr (w\<lparr>qmPackets :=
                mm_insert (static_cast_float (to_double (?time + ?r))) packet (qmPackets w),
              g_ao := (if elapsed (clock_recheck env) (qetLastFetch w) > 100
                       then ?primed else g_ao w)\<rparr>)"
    if "\<not> elapsed (clock_restart env) (qetLastFetch w) > 100"
    using that survives first_byte
    by (cases "g_ao w") (simp_all add: LoopUser_addFrame_def LoopUser_addFrame_locked_def
        LoopUser_addFrame_restart_check_def Let_def msgType_of_char_top3)
  have exact: "static_cast_float ?time = Finite (real_of_int ?ticker)"
    if "0 \<le> ?ticker \<and> ?ticker \<le> 2 ^ 24"
    using that static_cast_float_to_double_exact by blast
  have range: "0 \<le> ?r \<and> ?r \<le> dMaxPacketDelay w"
    if "0 < RAND_MAX \<and> rand_delay env \<le> RAND_MAX \<and> 0 \<le> dMaxPacketDelay w \<and>
        to_double (dMaxPacketDelay w) = dMaxPacketDelay w"
    using that delay_range by blast
  have linear: "\<bar>?r - real (rand_delay env) / real RAND_MAX * dMaxPacketDelay w\<bar>
                  \<le> dMaxPacketDelay w / 2 ^ 52 + (1 + dMaxPacketDelay w) / 2 ^ 1075"
    if "0 < RAND_MAX \<and> RAND_MAX \<le> 2 ^ 53 \<and> rand_delay env \<le> RAND_MAX \<and>
        0 \<le> dMaxPacketDelay w"
    using that delay_linear by blast
  show ?thesis
    unfolding Let_def
    using stalled_case paced_case exact range linear
    by blast
qed

theorem addFrame_restart_and_delay_witness:
  "\<not> DOUBLE_RAND 32767 0 < dPacketLoss (LoopUser_ctor (Some []) 0 20 0) \<and>
   (500::int) \<le> 501 \<and>
   elapsed 500 (qetLastFetch (LoopUser_ctor (Some []) 0 20 0)) > 100 \<and>
   LoopUser_addFrame 32767 7
      \<lparr>rand_loss = 0, rand_delay = 0, clock_restart = 500, clock_ticker = 500, clock_recheck = 501\<rparr>
      [0x80, 1] (LoopUser_ctor (Some []) 0 20 0)
    = Inr ((LoopUser_ctor (Some []) 0 20 0)
             \<lparr>qmPackets := [(Finite 500, [0x80, 1])], g_ao := Some [AddFrameToBuffer 7 [] 0 4]\<rparr>) \<and>
   \<not> elapsed 50 (qetLastFetch (LoopUser_ctor (Some []) 0 20 0)) > 100 \<and>
   LoopUser_addFrame 32767 7
      \<lparr>rand_loss = 0, rand_delay = 32767, clock_restart = 50, clock_ticker = 50, clock_recheck = 51\<rparr>
      [0x80, 1] (LoopUser_ctor (Some []) 0 20 0)
    = Inr ((LoopUser_ctor (Some []) 0 20 0)\<lparr>qmPackets := [(Finite 70, [0x80, 1])]\<rparr>)"
proof -
  let ?w = "LoopUser_ctor (Some []) 0 20 0"
  let ?env = "\<lparr>rand_loss = 0, rand_delay = 0, clock_restart = 500, clock_ticker = 500,
                clock_recheck = 501\<rparr>"
  let ?env' = "\<lparr>rand_loss = 0, rand_delay = 32767, clock_restart = 50, clock_ticker = 50,
                 clock_recheck = 51\<rparr>"
  have survives: "\<not> DOUBLE_RAND 32767 (rand_loss ?env) < dPacketLoss ?w"
    by (simp add: LoopUser_ctor_def)
  have survives': "\<not> DOUBLE_RAND 32767 (rand_loss ?env') < dPacketLoss ?w"
    by (simp add: LoopUser_ctor_def)
  have monotonic: "clock_restart ?env \<le> clock_recheck ?env" by simp
  have monotonic': "clock_restart ?env' \<le> clock_recheck ?env'" by simp
  have stalled: "elapsed (clock_restart ?env) (qetLastFetch ?w) > 100"
    by (simp add: LoopUser_ctor_def elapsed_def)
  have paced: "\<not> elapsed (clock_restart ?env') (qetLastFetch ?w) > 100"
    by (simp add: LoopUser_ctor_def elapsed_def)
  have recheck: "\<not> elapsed (clock_recheck ?env') (qetLastFetch ?w) > 100"
    by (simp add: LoopUser_ctor_def elapsed_def)
  have ticker: "elapsed (clock_ticker ?env) (qetTicker ?w) = 500"
    by (simp add: LoopUser_ctor_def elapsed_def)
  have ticker': "elapsed (clock_ticker ?env') (qetTicker ?w) = 50"
    by (simp add: LoopUser_ctor_def elapsed_def)
  have delay: "to_double (DOUBLE_RAND 32767 (rand_delay ?env') * dMaxPacketDelay ?w) = 20"
    by (simp add: LoopUser_ctor_def DOUBLE_RAND_RAND_MAX to_double_numeral)
  from addFrame_restart_and_delay [OF survives monotonic, of "[0x80, 1]" "0x80" "[1]" 7]
    stalled
  have "LoopUser_addFrame 32767 7 ?env [0x80, 1] ?w =
          Inr (?w\<lparr>qmPackets := mm_insert (static_cast_float (to_double 500)) [0x80, 1] (qmPackets ?w),
                   g_ao := (case g_ao ?w of
                              None \<Rightarrow> None
                            | Some calls \<Rightarrow>
                                Some (calls @ [AddFrameToBuffer 7 [] 0 (unat (drop_bit 5 (0x80 :: 8 word)))]))\<rparr>)"
    unfolding Let_def ticker by simp
  then have first: "LoopUser_addFrame 32767 7 ?env [0x80, 1] ?w
    = Inr (?w\<lparr>qmPackets := [(Finite 500, [0x80, 1])], g_ao := Some [AddFrameToBuffer 7 [] 0 4]\<rparr>)"
    by (simp add: LoopUser_ctor_def to_double_numeral static_cast_float_numeral)
  from addFrame_restart_and_delay [OF survives' monotonic', of "[0x80, 1]" "0x80" "[1]" 7]
    paced recheck
  have "LoopUser_addFrame 32767 7 ?env' [0x80, 1] ?w =
          Inr (?w\<lparr>qmPackets := mm_insert (static_cast_float (to_double (to_double 50 + 20)))
                                  [0x80, 1] (qmPackets ?w),
                   g_ao := g_ao ?w\<rparr>)"
    unfolding Let_def ticker' delay by simp
  then have second: "LoopUser_addFrame 32767 7 ?env' [0x80, 1] ?w
    = Inr (?w\<lparr>qmPackets := [(Finite 70, [0x80, 1])]\<rparr>)"
    by (simp add: LoopUser_ctor_def to_double_numeral static_cast_float_numeral)
  from survives stalled paced first second show ?thesis by simp
qed

text \<open>
  The restart check runs after the lock has been released. When the consuming thread runs
  \<open>fetchFrames\<close> in between, with a device present, the stall timer has been restarted
  by the time of the check (the collection holds at least the entry just scheduled), and
  within 100 ms of that the check pushes nothing: the entry was scheduled with zero
  delay, and the device receives the frame itself but no priming call.
\<close>

lemma mm_insert_not_empty: "mm_insert k v xs \<noteq> []"
  by (cases xs) (auto split: if_splits)

lemma addFrame_restart_check_after_fetch:
  assumes "g_ao w = Some calls"
    and "elapsed (clock_recheck env) (clock_fetched fetch_env) \<le> 100"
  shows "LoopUser_addFrame_restart_check this env packet
           (LoopUser_fetchFrames pds this fetch_env (LoopUser_addFrame_locked RAND_MAX env packet w))
         = Inr (LoopUser_fetchFrames pds this fetch_env
                  (LoopUser_addFrame_locked RAND_MAX env packet w))"
proof -
  have "qetLastFetch (LoopUser_fetchFrames pds this fetch_env
                        (LoopUser_addFrame_locked RAND_MAX env packet w))
          = clock_fetched fetch_env"
    using assms(1)
    by (simp add: LoopUser_fetchFrames_def LoopUser_addFrame_locked_def Let_def
          mm_insert_not_empty split: prod.split)
  with assms(2) show ?thesis
    by (simp add: LoopUser_addFrame_restart_check_def)
qed

lemma addFrame_restart_without_priming:
  "elapsed 500 (qetLastFetch (LoopUser_ctor (Some []) 0 20 0)) > 100 \<and>
   LoopUser_addFrame_restart_check 7
      \<lparr>rand_loss = 0, rand_delay = 0, clock_restart = 500, clock_ticker = 500, clock_recheck = 501\<rparr>
      [0x80, 1]
      (LoopUser_fetchFrames sample_pds 7 \<lparr>clock_cmp = 500, clock_fetched = 500\<rparr>
         (LoopUser_addFrame_locked 32767
            \<lparr>rand_loss = 0, rand_delay = 0, clock_restart = 500, clock_ticker = 500, clock_recheck = 501\<rparr>
            [0x80, 1] (LoopUser_ctor (Some []) 0 20 0)))
    = Inr ((LoopUser_ctor (Some []) 0 20 0)
             \<lparr>g_ao := Some [AddFrameToBuffer 7 [0x80] 1 4], qetLastFetch := 500\<rparr>)"
  by (simp add: LoopUser_addFrame_restart_check_def LoopUser_fetchFrames_def
        LoopUser_addFrame_locked_def LoopUser_ctor_def elapsed_def Let_def
        to_double_numeral static_cast_float_numeral deliver_def sample_pds_def)

section \<open>Properties of starting and stopping\<close>

subsection \<open>Schedules\<close>

lemma exec_append:
  "exec prog (es @ fs) c = (case exec prog es c of None \<Rightarrow> None | Some c' \<Rightarrow> exec prog fs c')"
  by (induction es arbitrary: c) (simp_all split: option.splits)

lemma exec_Step: "exec prog [Step] c = prog c"
  by (simp add: event_step_def split: option.splits)

text \<open>
  The caller runs the statements in the order of the text: after \<open>n\<close> of its steps it is
  at statement \<open>n\<close>, until it reaches the loop, and from there it does not go back
  before the loop.
\<close>

lemma stop_one_statement_exec:
  "exec (stop_one_step d) es (pc, s) = Some (pc', s') \<Longrightarrow>
     (stop_one_statement pc + count_list es Step \<le> 2 \<longrightarrow>
        stop_one_statement pc' = stop_one_statement pc + count_list es Step) \<and>
     (2 \<le> stop_one_statement pc + count_list es Step \<longrightarrow> 2 \<le> stop_one_statement pc')"
proof (induction es arbitrary: pc s)
  case Nil
  then show ?case by simp
next
  case (Cons e es)
  from Cons.prems obtain pc1 s1 where
    first: "event_step (stop_one_step d) e (pc, s) = Some (pc1, s1)"
    and rest: "exec (stop_one_step d) es (pc1, s1) = Some (pc', s')"
    by (auto split: option.splits)
  note IH = Cons.IH [OF rest]
  show ?case
  proof (cases "e = Step")
    case True
    with first have "stop_one_step d (pc, s) = Some (pc1, s1)"
      by (simp add: event_step_def)
    then have "(stop_one_statement pc < 2 \<longrightarrow> stop_one_statement pc1 = Suc (stop_one_statement pc)) \<and>
               (2 \<le> stop_one_statement pc \<longrightarrow> 2 \<le> stop_one_statement pc1)"
      by (cases pc) (auto split: option.splits if_splits)
    with IH True show ?thesis by auto
  next
    case False
    with first have "pc1 = pc"
      by (auto simp: event_step_def split: option.splits)
    with IH False show ?thesis by simp
  qed
qed

lemma stop_statement_exec:
  "exec stop_step es (pc, s) = Some (pc', s') \<Longrightarrow>
     (stop_statement pc + count_list es Step \<le> 4 \<longrightarrow>
        stop_statement pc' = stop_statement pc + count_list es Step) \<and>
     (4 \<le> stop_statement pc + count_list es Step \<longrightarrow> 4 \<le> stop_statement pc')"
proof (induction es arbitrary: pc s)
  case Nil
  then show ?case by simp
next
  case (Cons e es)
  from Cons.prems obtain pc1 s1 where
    first: "event_step stop_step e (pc, s) = Some (pc1, s1)"
    and rest: "exec stop_step es (pc1, s1) = Some (pc', s')"
    by (auto split: option.splits)
  note IH = Cons.IH [OF rest]
  show ?case
  proof (cases "e = Step")
    case True
    with first have "stop_step (pc, s) = Some (pc1, s1)"
      by (simp add: event_step_def)
    then have "(stop_statement pc < 4 \<longrightarrow> stop_statement pc1 = Suc (stop_statement pc)) \<and>
               (4 \<le> stop_statement pc \<longrightarrow> 4 \<le> stop_statement pc1)"
      by (cases pc) (auto split: option.splits if_splits)
    with IH True show ?thesis by auto
  next
    case False
    with first have "pc1 = pc"
      by (auto simp: event_step_def split: option.splits)
    with IH False show ?thesis by simp
  qed
qed

lemma stop_one_statement_simps:
  "(stop_one_statement pc = 0) = (pc = Copy_global)"
  "(stop_one_statement pc = Suc 0) = (pc = Reset_global)"
  "(2 \<le> stop_one_statement pc) = (pc \<in> {Wait_unique, Reset_local, Returned})"
  by (cases pc; simp)+

lemma stop_statement_simps:
  "(stop_statement pc = 0) = (pc = Copy_ai)"
  "(stop_statement pc = Suc 0) = (pc = Copy_ao)"
  "(stop_statement pc = 2) = (pc = Reset_ao)"
  "(stop_statement pc = 3) = (pc = Reset_ai)"
  "(4 \<le> stop_statement pc) = (pc \<in> {Test_ai, Test_ao, Release_ai, Release_ao, Stopped})"
  by (cases pc; simp)+

subsection \<open>Invariants\<close>

lemma stop_one_inv_step:
  assumes "stop_one_inv d x c" and "event_step (stop_one_step d) e c = Some c'"
  shows "stop_one_inv d x c'"
proof -
  obtain pc s where c: "c = (pc, s)" by (cases c)
  show ?thesis
  proof (cases e)
    case Step
    with assms c show ?thesis
      by (cases pc)
         (auto simp: stop_one_inv_def event_step_def copy_ptr_def reset_ptr_def Let_def
               split: option.splits if_splits)
  next
    case (Acquire d')
    with assms c show ?thesis
      by (cases pc)
         (auto simp: stop_one_inv_def event_step_def copy_ptr_def reset_ptr_def Let_def
               split: option.splits if_splits)
  next
    case (Duplicate d' y)
    with assms c show ?thesis
      by (cases pc)
         (auto simp: stop_one_inv_def event_step_def copy_ptr_def reset_ptr_def Let_def
               split: option.splits if_splits)
  next
    case (Release d' y)
    with assms c show ?thesis
      by (cases pc)
         (auto simp: stop_one_inv_def event_step_def copy_ptr_def reset_ptr_def Let_def
               split: option.splits if_splits)
  qed
qed

lemma stop_one_inv_exec:
  "stop_one_inv d x c \<Longrightarrow> exec (stop_one_step d) es c = Some c' \<Longrightarrow> stop_one_inv d x c'"
proof (induction es arbitrary: c)
  case Nil
  then show ?case by simp
next
  case (Cons e es)
  then show ?case
    by (auto split: option.splits dest: stop_one_inv_step)
qed

lemma stop_inv_step:
  assumes "stop_inv ia oa c" and "event_step stop_step e c = Some c'"
  shows "stop_inv ia oa c'"
proof -
  obtain pc s where c: "c = (pc, s)" by (cases c)
  show ?thesis
  proof (cases e)
    case Step
    with assms c show ?thesis
      by (cases pc; cases ia; cases oa)
         (auto simp: stop_inv_def held_def sole_def gone_def event_step_def copy_ptr_def
               reset_ptr_def
               split: option.splits if_splits)
  next
    case (Acquire d')
    with assms c show ?thesis
      by (cases pc; cases d'; cases ia; cases oa)
         (auto simp: stop_inv_def held_def sole_def gone_def event_step_def copy_ptr_def
               reset_ptr_def
               split: option.splits if_splits)
  next
    case (Duplicate d' y)
    with assms c show ?thesis
      by (cases pc; cases d'; cases ia; cases oa)
         (auto simp: stop_inv_def held_def sole_def gone_def event_step_def copy_ptr_def
               reset_ptr_def
               split: option.splits if_splits)
  next
    case (Release d' y)
    with assms c show ?thesis
      by (cases pc; cases d'; cases ia; cases oa)
         (auto simp: stop_inv_def held_def sole_def gone_def event_step_def copy_ptr_def
               reset_ptr_def Let_def
               split: option.splits if_splits)
  qed
qed

lemma stop_inv_exec:
  "stop_inv ia oa c \<Longrightarrow> exec stop_step es c = Some c' \<Longrightarrow> stop_inv ia oa c'"
proof (induction es arbitrary: c)
  case Nil
  then show ?case by simp
next
  case (Cons e es)
  then show ?case
    by (auto split: option.splits dest: stop_inv_step)
qed

subsection \<open>Thread priorities of the started devices\<close>

text \<open>
  Claim C6 as stated (render priority at least capture priority) fails: \<open>startOutput\<close>
  starts the render thread with \<open>QThread::HighPriority\<close>, \<open>startInput\<close> starts the capture
  thread with \<open>QThread::HighestPriority\<close>, and the first is below the second.
\<close>

theorem render_priority_below_capture_priority:
  "started (startOutput sample_registrar ''Default'' no_devices) = [(Output, 1, HighPriority)] \<and>
   started (startInput sample_registrar ''Default'' no_devices) = [(Input, 1, HighestPriority)] \<and>
   \<not> priority_rank HighPriority \<ge> priority_rank HighestPriority"
  by (simp add: startOutput_def startInput_def assign_global_def reset_ptr_def no_devices_def
        sample_registrar_def)

text \<open>
  Claim C6, amended. For every \<open>startOutput\<close> and \<open>startInput\<close> call that resolves its
  choice to an instance, the render thread is started with \<open>HighPriority\<close> and the
  capture thread with \<open>HighestPriority\<close>: the capture priority is greater than the
  render priority.
\<close>

theorem capture_priority_above_render_priority:
  assumes "newOutput output = Some x" and "newInput input = Some y"
  shows "started (startOutput newOutput output s) = started s @ [(Output, x, HighPriority)] \<and>
         started (startInput newInput input s') = started s' @ [(Input, y, HighestPriority)] \<and>
         priority_rank HighPriority < priority_rank HighestPriority"
  using assms
  by (simp add: startOutput_def startInput_def assign_global_def reset_ptr_def Let_def
        split: option.splits)

theorem capture_priority_above_render_priority_witness:
  "sample_registrar ''Default'' = Some 1 \<and>
   started (startOutput sample_registrar ''Default'' no_devices) = [(Output, 1, HighPriority)] \<and>
   started (startInput sample_registrar ''Default'' no_devices) = [(Input, 1, HighestPriority)] \<and>
   priority_rank HighPriority < priority_rank HighestPriority"
proof -
  have resolved: "sample_registrar ''Default'' = Some 1"
    by (simp add: sample_registrar_def)
  from capture_priority_above_render_priority
         [of sample_registrar "''Default''" 1 sample_registrar "''Default''" 1
             no_devices no_devices]
    resolved
  show ?thesis by (simp add: no_devices_def)
qed

subsection \<open>A choice that does not resolve\<close>

text \<open>
  Claim C7 as stated (the active handle remains what it was) fails: the result of
  \<open>newFromChoice\<close> is assigned to \<open>g.ao\<close> before it is tested, so a null result replaces
  an active handle. After a first \<open>startOutput\<close> that installs instance 1, a second one
  with a choice that does not resolve leaves \<open>g.ao\<close> null.
\<close>

theorem failed_startOutput_drops_active_handle:
  "sample_registrar ''missing'' = None \<and>
   g_ptr (startOutput sample_registrar ''Default'' no_devices) Output = Some 1 \<and>
   g_ptr (startOutput sample_registrar ''missing''
            (startOutput sample_registrar ''Default'' no_devices)) Output = None \<and>
   g_ptr (startOutput sample_registrar ''missing''
            (startOutput sample_registrar ''Default'' no_devices)) Output
     \<noteq> g_ptr (startOutput sample_registrar ''Default'' no_devices) Output"
  by (simp add: startOutput_def assign_global_def reset_ptr_def no_devices_def
        sample_registrar_def)

text \<open>
  Claim C7, amended. For every \<open>startOutput\<close> (resp. \<open>startInput\<close>) call whose choice
  does not resolve to an instance, the global handle of that direction is null after
  the call, whatever it was before; no thread is started and the handle of the other
  direction is untouched. The call returns normally: the model has no error result.
\<close>

theorem failed_start_leaves_no_handle:
  "(newOutput output = None \<longrightarrow>
      g_ptr (startOutput newOutput output s) Output = None \<and>
      g_ptr (startOutput newOutput output s) Input = g_ptr s Input \<and>
      started (startOutput newOutput output s) = started s) \<and>
   (newInput input = None \<longrightarrow>
      g_ptr (startInput newInput input s) Input = None \<and>
      g_ptr (startInput newInput input s) Output = g_ptr s Output \<and>
      started (startInput newInput input s) = started s)"
  by (simp add: startOutput_def startInput_def assign_global_def reset_ptr_def Let_def
        split: option.splits)

theorem failed_start_leaves_no_handle_witness:
  "sample_registrar ''missing'' = None \<and>
   g_ptr (startOutput sample_registrar ''missing''
            (startOutput sample_registrar ''Default'' no_devices)) Output = None \<and>
   started (startOutput sample_registrar ''missing''
            (startOutput sample_registrar ''Default'' no_devices))
     = [(Output, 1, HighPriority)] \<and>
   g_ptr (startInput sample_registrar ''missing'' no_devices) Input = None \<and>
   started (startInput sample_registrar ''missing'' no_devices) = []"
proof -
  have unresolved: "sample_registrar ''missing'' = None"
    by (simp add: sample_registrar_def)
  have before: "started (startOutput sample_registrar ''Default'' no_devices)
                  = [(Output, 1, HighPriority)]"
    by (simp add: startOutput_def assign_global_def reset_ptr_def no_devices_def
          sample_registrar_def)
  have empty: "started no_devices = []" by (simp add: no_devices_def)
  from failed_start_leaves_no_handle
         [of sample_registrar "''missing''"
             "startOutput sample_registrar ''Default'' no_devices" sample_registrar "''missing''"]
       failed_start_leaves_no_handle
         [of sample_registrar "''missing''" no_devices sample_registrar "''missing''"]
       unresolved before empty
  show ?thesis by simp
qed

subsection \<open>Stopping one device\<close>

text \<open>While another reference exists, the caller stays in the loop, however often it runs.\<close>

lemma stop_one_spins:
  "local_ptr s d = Some x \<Longrightarrow> use_count s (d, x) \<noteq> 1 \<Longrightarrow>
     exec (stop_one_step d) (replicate n Step) (Wait_unique, s) = Some (Wait_unique, s)"
  by (induction n) (simp_all add: event_step_def)

text \<open>Once the local reference is the only one, two steps of the caller destroy the instance and return.\<close>

lemma stop_one_completes:
  assumes "local_ptr s d = Some x" and "use_count s (d, x) = 1"
  shows "exec (stop_one_step d) [Step, Step] (Wait_unique, s) =
           Some (Returned, s\<lparr>use_count := (use_count s)((d, x) := 0),
                             destroyed := destroyed s @ [(d, x, Caller)],
                             local_ptr := (local_ptr s)(d := None)\<rparr>)"
  using assms by (simp add: event_step_def reset_ptr_def)

text \<open>
  Claim C1. \<open>stopOutput\<close> is called while instance \<open>x\<close> is the active render device,
  referenced by \<open>g.ao\<close> and any number of times elsewhere. Along every schedule \<open>es\<close> of
  the caller's steps and of copies and releases by other threads, at the state reached:
  \<^item> the caller's first step is the copy and its second the clearing: before its first
    step it is at the copy, after one step at the clearing, after two or more at the
    loop or beyond;
  \<^item> the local reference is taken while \<open>g.ao\<close> still points to \<open>x\<close>, it is counted, and
    it is held during the clearing and the wait, up to the release;
  \<^item> from the wait on, \<open>g.ao\<close> is null, and a thread that copies \<open>g.ao\<close> gains no reference;
  \<^item> when the caller is about to release its local reference, the count is 1 and no
    reference is held elsewhere;
  \<^item> the destructor has not run before the function returns, it never runs on another
    thread, and when the function has returned it has run on the calling thread;
  \<^item> until it has returned, the caller can always take a step;
  \<^item> a step in the loop while a reference is held elsewhere changes nothing: the caller
    is in the loop again;
  \<^item> in the loop with no reference held elsewhere, the caller's next two steps leave the
    loop and release the local reference: the destructor runs then, on the calling
    thread, and the function has returned.
  The witness runs a schedule in which a callback holds a reference during the wait.
\<close>

theorem stopOutput_releases_sole_reference:
  assumes active: "g_ptr s Output = Some x"
    and counted: "use_count s (Output, x) = 1 + elsewhere s (Output, x)"
    and alive: "\<forall>t. (Output, x, t) \<notin> set (destroyed s)"
    and run: "exec stopOutput_step es (Copy_global, s) = Some (pc', s')"
  shows "(count_list es Step = 0 \<longrightarrow> pc' = Copy_global) \<and>
         (count_list es Step = 1 \<longrightarrow> pc' = Reset_global) \<and>
         (2 \<le> count_list es Step \<longrightarrow> pc' \<in> {Wait_unique, Reset_local, Returned}) \<and>
         (pc' \<in> {Reset_global, Wait_unique, Reset_local} \<longrightarrow> local_ptr s' Output = Some x) \<and>
         (pc' \<in> {Copy_global, Reset_global} \<longrightarrow> g_ptr s' Output = Some x) \<and>
         (pc' = Reset_global \<longrightarrow> use_count s' (Output, x) = 2 + elsewhere s' (Output, x)) \<and>
         (pc' = Wait_unique \<longrightarrow> use_count s' (Output, x) = 1 + elsewhere s' (Output, x)) \<and>
         (pc' \<in> {Wait_unique, Reset_local, Returned} \<longrightarrow>
            g_ptr s' Output = None \<and> elsewhere_step (Acquire Output) s' = Some s') \<and>
         (pc' \<noteq> Returned \<longrightarrow> (\<forall>t. (Output, x, t) \<notin> set (destroyed s'))) \<and>
         (pc' = Reset_local \<longrightarrow>
            use_count s' (Output, x) = 1 \<and> elsewhere s' (Output, x) = 0) \<and>
         (pc' = Returned \<longrightarrow>
            (Output, x, Caller) \<in> set (destroyed s') \<and> elsewhere s' (Output, x) = 0 \<and>
            use_count s' (Output, x) = 0) \<and>
         (Output, x, Callback) \<notin> set (destroyed s') \<and>
         (pc' \<noteq> Returned \<longrightarrow>
            (\<exists>c. exec stopOutput_step (es @ [Step]) (Copy_global, s) = Some c)) \<and>
         (pc' = Wait_unique \<and> elsewhere s' (Output, x) \<noteq> 0 \<longrightarrow>
            exec stopOutput_step (es @ [Step]) (Copy_global, s) = Some (Wait_unique, s')) \<and>
         (pc' = Wait_unique \<and> elsewhere s' (Output, x) = 0 \<longrightarrow>
            exec stopOutput_step (es @ [Step, Step]) (Copy_global, s) =
              Some (Returned, s'\<lparr>use_count := (use_count s')((Output, x) := 0),
                                 destroyed := destroyed s' @ [(Output, x, Caller)],
                                 local_ptr := (local_ptr s')(Output := None)\<rparr>))"
proof -
  from active counted alive have "stop_one_inv Output x (Copy_global, s)"
    by (simp add: stop_one_inv_def)
  with run have inv: "stop_one_inv Output x (pc', s')"
    unfolding stopOutput_step_def by (rule stop_one_inv_exec [rotated])
  from run have "(count_list es Step \<le> 2 \<longrightarrow> stop_one_statement pc' = count_list es Step) \<and>
                 (2 \<le> count_list es Step \<longrightarrow> 2 \<le> stop_one_statement pc')"
    unfolding stopOutput_step_def using stop_one_statement_exec [of Output es Copy_global s pc' s']
    by simp
  then have order:
    "count_list es Step = 0 \<longrightarrow> pc' = Copy_global"
    "count_list es Step = 1 \<longrightarrow> pc' = Reset_global"
    "2 \<le> count_list es Step \<longrightarrow> pc' \<in> {Wait_unique, Reset_local, Returned}"
    by (auto simp: stop_one_statement_simps)
  from inv have state:
    "(pc' \<in> {Reset_global, Wait_unique, Reset_local} \<longrightarrow> local_ptr s' Output = Some x) \<and>
     (pc' \<in> {Copy_global, Reset_global} \<longrightarrow> g_ptr s' Output = Some x) \<and>
     (pc' = Reset_global \<longrightarrow> use_count s' (Output, x) = 2 + elsewhere s' (Output, x)) \<and>
     (pc' = Wait_unique \<longrightarrow> use_count s' (Output, x) = 1 + elsewhere s' (Output, x)) \<and>
     (pc' \<in> {Wait_unique, Reset_local, Returned} \<longrightarrow>
        g_ptr s' Output = None \<and> elsewhere_step (Acquire Output) s' = Some s') \<and>
     (pc' \<noteq> Returned \<longrightarrow> (\<forall>t. (Output, x, t) \<notin> set (destroyed s'))) \<and>
     (pc' = Reset_local \<longrightarrow>
        use_count s' (Output, x) = 1 \<and> elsewhere s' (Output, x) = 0) \<and>
     (pc' = Returned \<longrightarrow>
        (Output, x, Caller) \<in> set (destroyed s') \<and> elsewhere s' (Output, x) = 0 \<and>
        use_count s' (Output, x) = 0) \<and>
     (Output, x, Callback) \<notin> set (destroyed s')"
    by (cases pc') (auto simp: stop_one_inv_def)
  have next_step: "exec (stop_one_step Output) (es @ fs) (Copy_global, s)
                     = exec (stop_one_step Output) fs (pc', s')" for fs
    using run by (simp add: exec_append stopOutput_step_def)
  have progress: "pc' \<noteq> Returned \<longrightarrow>
                    (\<exists>c. exec stopOutput_step (es @ [Step]) (Copy_global, s) = Some c)"
    unfolding stopOutput_step_def next_step exec_Step by (cases pc') simp_all
  have waits: "pc' = Wait_unique \<and> elsewhere s' (Output, x) \<noteq> 0 \<longrightarrow>
                 exec stopOutput_step (es @ [Step]) (Copy_global, s) = Some (Wait_unique, s')"
    unfolding stopOutput_step_def next_step exec_Step using inv
    by (auto simp: stop_one_inv_def)
  have completes: "pc' = Wait_unique \<and> elsewhere s' (Output, x) = 0 \<longrightarrow>
            exec stopOutput_step (es @ [Step, Step]) (Copy_global, s) =
              Some (Returned, s'\<lparr>use_count := (use_count s')((Output, x) := 0),
                                 destroyed := destroyed s' @ [(Output, x, Caller)],
                                 local_ptr := (local_ptr s')(Output := None)\<rparr>)"
  proof
    assume a: "pc' = Wait_unique \<and> elsewhere s' (Output, x) = 0"
    with inv have "local_ptr s' Output = Some x" "use_count s' (Output, x) = 1"
      by (simp_all add: stop_one_inv_def)
    from stop_one_completes [OF this] a show
      "exec stopOutput_step (es @ [Step, Step]) (Copy_global, s) =
              Some (Returned, s'\<lparr>use_count := (use_count s')((Output, x) := 0),
                                 destroyed := destroyed s' @ [(Output, x, Caller)],
                                 local_ptr := (local_ptr s')(Output := None)\<rparr>)"
      unfolding stopOutput_step_def next_step by simp
  qed
  from order state progress waits completes show ?thesis by blast
qed

theorem stopOutput_releases_sole_reference_witness:
  "g_ptr (startOutput sample_registrar ''Default'' no_devices) Output = Some 1 \<and>
   use_count (startOutput sample_registrar ''Default'' no_devices) (Output, 1)
     = 1 + elsewhere (startOutput sample_registrar ''Default'' no_devices) (Output, 1) \<and>
   destroyed (startOutput sample_registrar ''Default'' no_devices) = [] \<and>
   (\<exists>s'. exec stopOutput_step callback_holds_output
            (Copy_global, startOutput sample_registrar ''Default'' no_devices)
          = Some (Returned, s') \<and>
         destroyed s' = [(Output, 1, Caller)] \<and> elsewhere s' (Output, 1) = 0 \<and>
         g_ptr s' Output = None) \<and>
   (\<exists>s'. exec stopOutput_step (take 6 callback_holds_output)
            (Copy_global, startOutput sample_registrar ''Default'' no_devices)
          = Some (Wait_unique, s') \<and>
         destroyed s' = [] \<and> elsewhere s' (Output, 1) = 1 \<and> use_count s' (Output, 1) = 2 \<and>
         g_ptr s' Output = None \<and> local_ptr s' Output = Some 1 \<and>
         exec stopOutput_step (take 6 callback_holds_output @ [Step])
            (Copy_global, startOutput sample_registrar ''Default'' no_devices)
          = Some (Wait_unique, s'))"
proof -
  let ?s = "startOutput sample_registrar ''Default'' no_devices"
  have init: "g_ptr ?s Output = Some 1" "use_count ?s (Output, 1) = 1 + elsewhere ?s (Output, 1)"
    "destroyed ?s = []"
    by (simp_all add: startOutput_def assign_global_def reset_ptr_def no_devices_def
          sample_registrar_def)
  have alive: "\<forall>t. (Output, 1, t) \<notin> set (destroyed ?s)"
    using init(3) by simp
  obtain pc1 s1 where run1:
      "exec stopOutput_step callback_holds_output (Copy_global, ?s) = Some (pc1, s1)"
    and end1: "pc1 = Returned" "destroyed s1 = [(Output, 1, Caller)]"
    by (simp add: callback_holds_output_def stopOutput_step_def event_step_def
          startOutput_def assign_global_def reset_ptr_def copy_ptr_def no_devices_def
          sample_registrar_def Let_def)
  obtain pc2 s2 where run2:
      "exec stopOutput_step (take 6 callback_holds_output) (Copy_global, ?s) = Some (pc2, s2)"
    and end2: "pc2 = Wait_unique" "elsewhere s2 (Output, 1) = 1" "use_count s2 (Output, 1) = 2"
      "destroyed s2 = []"
    by (simp add: callback_holds_output_def stopOutput_step_def event_step_def
          startOutput_def assign_global_def reset_ptr_def copy_ptr_def no_devices_def
          sample_registrar_def Let_def)
  note at_return = stopOutput_releases_sole_reference [OF init(1,2) alive run1]
  note at_wait = stopOutput_releases_sole_reference [OF init(1,2) alive run2]
  from at_return end1(1) have "elsewhere s1 (Output, 1) = 0" by blast
  moreover from at_return end1(1) have "g_ptr s1 Output = None" by blast
  moreover from at_wait end2(1) have "g_ptr s2 Output = None" by blast
  moreover from at_wait end2(1) have "local_ptr s2 Output = Some 1" by blast
  moreover from at_wait end2(1,2)
  have "exec stopOutput_step (take 6 callback_holds_output @ [Step]) (Copy_global, ?s)
          = Some (Wait_unique, s2)" by simp
  ultimately show ?thesis using init run1 end1 run2 end2 by auto
qed

text \<open>The same holds for \<open>stopInput\<close> and the capture device.\<close>

lemma stopInput_releases_sole_reference:
  assumes "g_ptr s Input = Some x"
    and "use_count s (Input, x) = 1 + elsewhere s (Input, x)"
    and "\<forall>t. (Input, x, t) \<notin> set (destroyed s)"
    and "exec stopInput_step es (Copy_global, s) = Some (pc', s')"
  shows "(pc' = Reset_local \<longrightarrow> use_count s' (Input, x) = 1 \<and> elsewhere s' (Input, x) = 0) \<and>
         (pc' \<noteq> Returned \<longrightarrow> (\<forall>t. (Input, x, t) \<notin> set (destroyed s'))) \<and>
         (pc' = Returned \<longrightarrow> (Input, x, Caller) \<in> set (destroyed s')) \<and>
         (Input, x, Callback) \<notin> set (destroyed s')"
proof -
  from assms(1-3) have "stop_one_inv Input x (Copy_global, s)"
    by (simp add: stop_one_inv_def)
  with assms(4) have "stop_one_inv Input x (pc', s')"
    unfolding stopInput_step_def by (rule stop_one_inv_exec [rotated])
  then show ?thesis
    by (cases pc') (auto simp: stop_one_inv_def)
qed

subsection \<open>Stopping both devices\<close>

lemma stop_spins_on_input:
  "local_ptr s Input = Some a \<Longrightarrow> use_count s (Input, a) \<noteq> 1 \<Longrightarrow>
     exec stop_step (replicate n Step) (Test_ai, s) = Some (Test_ai, s)"
  by (induction n) (simp_all add: event_step_def)

text \<open>
  With both local references unique, or null, four steps of the caller leave the loop
  and release them, \<open>ai\<close> first.
\<close>

lemma stop_completes:
  assumes "local_ptr s Input = ia" and "local_ptr s Output = oa"
    and "sole Input ia s" and "sole Output oa s"
  shows "\<exists>s'. exec stop_step [Step, Step, Step, Step] (Test_ai, s) = Some (Stopped, s') \<and>
              destroyed s' = destroyed s @ destroyed_by_caller Input ia @ destroyed_by_caller Output oa"
  using assms
  by (cases ia; cases oa)
     (simp_all add: event_step_def reset_ptr_def sole_def destroyed_by_caller_def)

text \<open>
  Claim C2. \<open>Audio::stop\<close> is called while \<open>g.ai\<close> is the pointer \<open>ia\<close> and \<open>g.ao\<close> the
  pointer \<open>oa\<close>, each of them an active device, referenced any number of times
  elsewhere, or null. Along every schedule \<open>es\<close>, at the state reached:
  \<^item> the caller runs the two copies first, then the two clearings: before its first step
    it is at the copy of \<open>g.ai\<close>, after one step at the copy of \<open>g.ao\<close>, after two at the
    clearing of \<open>g.ao\<close>, after three at the clearing of \<open>g.ai\<close>, after four or more at
    the loop or beyond;
  \<^item> both globals still point to their instances until both local references are taken,
    and each copy is counted;
  \<^item> both local references are held from then until the first release;
  \<^item> both globals are null from the loop on;
  \<^item> neither destructor has run before the release of \<open>ai\<close>;
  \<^item> when the caller is about to release \<open>ai\<close>, both counts are 1 and neither instance
    is referenced elsewhere: the two local references are the sole references at the same
    time;
  \<^item> when it is about to release \<open>ao\<close>, that is still the sole reference to its instance;
  \<^item> neither destructor ever runs on another thread, and after the return both have run
    on the calling thread;
  \<^item> until it has returned, the caller can always take a step;
  \<^item> in the loop, while an instance is referenced elsewhere, the caller's steps bring it
    back to the start of the loop with nothing changed;
  \<^item> at the start of the loop with neither instance referenced elsewhere, the caller's
    next four steps leave the loop and release \<open>ai\<close>, then \<open>ao\<close>: the destructors run
    then, in this order, on the calling thread, and the function has returned.
\<close>

theorem stop_releases_after_both_unique:
  assumes capture: "g_ptr s Input = ia" and render: "g_ptr s Output = oa"
    and counted: "held Input ia 1 s" "held Output oa 1 s"
    and run: "exec stop_step es (Copy_ai, s) = Some (pc', s')"
  shows "(count_list es Step = 0 \<longrightarrow> pc' = Copy_ai) \<and>
         (count_list es Step = 1 \<longrightarrow> pc' = Copy_ao) \<and>
         (count_list es Step = 2 \<longrightarrow> pc' = Reset_ao) \<and>
         (count_list es Step = 3 \<longrightarrow> pc' = Reset_ai) \<and>
         (4 \<le> count_list es Step \<longrightarrow>
            pc' \<in> {Test_ai, Test_ao, Release_ai, Release_ao, Stopped}) \<and>
         (pc' \<in> {Copy_ai, Copy_ao, Reset_ao} \<longrightarrow>
            g_ptr s' Input = ia \<and> g_ptr s' Output = oa) \<and>
         (pc' = Copy_ao \<longrightarrow> local_ptr s' Input = ia \<and> held Input ia 2 s') \<and>
         (pc' = Reset_ao \<longrightarrow> held Input ia 2 s' \<and> held Output oa 2 s') \<and>
         (pc' \<in> {Reset_ao, Reset_ai, Test_ai, Test_ao, Release_ai} \<longrightarrow>
            local_ptr s' Input = ia \<and> local_ptr s' Output = oa) \<and>
         (pc' \<in> {Test_ai, Test_ao, Release_ai, Release_ao, Stopped} \<longrightarrow>
            g_ptr s' Input = None \<and> g_ptr s' Output = None) \<and>
         (pc' \<in> {Test_ai, Test_ao} \<longrightarrow> held Input ia 1 s' \<and> held Output oa 1 s') \<and>
         (pc' \<notin> {Release_ao, Stopped} \<longrightarrow>
            (\<forall>a t. ia = Some a \<longrightarrow> (Input, a, t) \<notin> set (destroyed s')) \<and>
            (\<forall>b t. oa = Some b \<longrightarrow> (Output, b, t) \<notin> set (destroyed s'))) \<and>
         (pc' = Release_ai \<longrightarrow> sole Input ia s' \<and> sole Output oa s') \<and>
         (pc' = Release_ao \<longrightarrow>
            gone Input ia s' \<and> local_ptr s' Output = oa \<and> sole Output oa s') \<and>
         (pc' = Stopped \<longrightarrow> gone Input ia s' \<and> gone Output oa s') \<and>
         (\<forall>a. ia = Some a \<longrightarrow> (Input, a, Callback) \<notin> set (destroyed s')) \<and>
         (\<forall>b. oa = Some b \<longrightarrow> (Output, b, Callback) \<notin> set (destroyed s')) \<and>
         (pc' \<noteq> Stopped \<longrightarrow> (\<exists>c. exec stop_step (es @ [Step]) (Copy_ai, s) = Some c)) \<and>
         (pc' = Test_ai \<and> \<not> unshared Input ia s' \<longrightarrow>
            exec stop_step (es @ [Step]) (Copy_ai, s) = Some (Test_ai, s')) \<and>
         (pc' = Test_ao \<and> \<not> unshared Output oa s' \<longrightarrow>
            exec stop_step (es @ [Step]) (Copy_ai, s) = Some (Test_ai, s')) \<and>
         (pc' = Test_ai \<and> unshared Input ia s' \<and> \<not> unshared Output oa s' \<longrightarrow>
            exec stop_step (es @ [Step, Step]) (Copy_ai, s) = Some (Test_ai, s')) \<and>
         (pc' = Test_ai \<and> unshared Input ia s' \<and> unshared Output oa s' \<longrightarrow>
            (\<exists>s''. exec stop_step (es @ [Step, Step, Step, Step]) (Copy_ai, s)
                     = Some (Stopped, s'') \<and>
                   destroyed s'' = destroyed s' @ destroyed_by_caller Input ia
                                     @ destroyed_by_caller Output oa))"
proof -
  from capture render counted have "stop_inv ia oa (Copy_ai, s)"
    by (simp add: stop_inv_def)
  with run have inv: "stop_inv ia oa (pc', s')"
    by (rule stop_inv_exec [rotated])
  from run have "(count_list es Step \<le> 4 \<longrightarrow> stop_statement pc' = count_list es Step) \<and>
                 (4 \<le> count_list es Step \<longrightarrow> 4 \<le> stop_statement pc')"
    using stop_statement_exec [of es Copy_ai s pc' s'] by simp
  then have order:
    "count_list es Step = 0 \<longrightarrow> pc' = Copy_ai"
    "count_list es Step = 1 \<longrightarrow> pc' = Copy_ao"
    "count_list es Step = 2 \<longrightarrow> pc' = Reset_ao"
    "count_list es Step = 3 \<longrightarrow> pc' = Reset_ai"
    "4 \<le> count_list es Step \<longrightarrow> pc' \<in> {Test_ai, Test_ao, Release_ai, Release_ao, Stopped}"
    by (auto simp: stop_statement_simps)
  from inv have state:
    "(pc' \<in> {Copy_ai, Copy_ao, Reset_ao} \<longrightarrow>
        g_ptr s' Input = ia \<and> g_ptr s' Output = oa) \<and>
     (pc' = Copy_ao \<longrightarrow> local_ptr s' Input = ia \<and> held Input ia 2 s') \<and>
     (pc' = Reset_ao \<longrightarrow> held Input ia 2 s' \<and> held Output oa 2 s') \<and>
     (pc' \<in> {Reset_ao, Reset_ai, Test_ai, Test_ao, Release_ai} \<longrightarrow>
        local_ptr s' Input = ia \<and> local_ptr s' Output = oa) \<and>
     (pc' \<in> {Test_ai, Test_ao, Release_ai, Release_ao, Stopped} \<longrightarrow>
        g_ptr s' Input = None \<and> g_ptr s' Output = None) \<and>
     (pc' = Release_ai \<longrightarrow> sole Input ia s' \<and> sole Output oa s') \<and>
     (pc' = Release_ao \<longrightarrow>
        gone Input ia s' \<and> local_ptr s' Output = oa \<and> sole Output oa s') \<and>
     (pc' = Stopped \<longrightarrow> gone Input ia s' \<and> gone Output oa s')"
    by (cases pc') (simp_all add: stop_inv_def)
  from inv have waiting: "pc' \<in> {Test_ai, Test_ao} \<longrightarrow> held Input ia 1 s' \<and> held Output oa 1 s'"
    by (cases pc'; cases ia) (simp_all add: stop_inv_def held_def sole_def)
  from inv have alive:
    "pc' \<notin> {Release_ao, Stopped} \<longrightarrow>
       (\<forall>a t. ia = Some a \<longrightarrow> (Input, a, t) \<notin> set (destroyed s')) \<and>
       (\<forall>b t. oa = Some b \<longrightarrow> (Output, b, t) \<notin> set (destroyed s'))"
    by (cases pc') (auto simp: stop_inv_def held_def sole_def)
  from inv have callback:
    "\<forall>a. ia = Some a \<longrightarrow> (Input, a, Callback) \<notin> set (destroyed s')"
    "\<forall>b. oa = Some b \<longrightarrow> (Output, b, Callback) \<notin> set (destroyed s')"
    by (cases pc'; auto simp: stop_inv_def held_def sole_def gone_def)+
  have next_step: "exec stop_step (es @ fs) (Copy_ai, s) = exec stop_step fs (pc', s')" for fs
    using run by (simp add: exec_append)
  have progress: "pc' \<noteq> Stopped \<longrightarrow> (\<exists>c. exec stop_step (es @ [Step]) (Copy_ai, s) = Some c)"
    unfolding next_step exec_Step by (cases pc') simp_all
  have waits_ai: "pc' = Test_ai \<and> \<not> unshared Input ia s' \<longrightarrow>
                    exec stop_step (es @ [Step]) (Copy_ai, s) = Some (Test_ai, s')"
    unfolding next_step exec_Step using inv
    by (cases ia) (auto simp: stop_inv_def held_def unshared_def)
  have waits_ao: "pc' = Test_ao \<and> \<not> unshared Output oa s' \<longrightarrow>
                    exec stop_step (es @ [Step]) (Copy_ai, s) = Some (Test_ai, s')"
    unfolding next_step exec_Step using inv
    by (cases oa) (auto simp: stop_inv_def held_def unshared_def)
  have waits_both: "pc' = Test_ai \<and> unshared Input ia s' \<and> \<not> unshared Output oa s' \<longrightarrow>
                      exec stop_step (es @ [Step, Step]) (Copy_ai, s) = Some (Test_ai, s')"
    unfolding next_step using inv
    by (cases ia; cases oa) (auto simp: stop_inv_def held_def unshared_def event_step_def)
  have completes: "pc' = Test_ai \<and> unshared Input ia s' \<and> unshared Output oa s' \<longrightarrow>
            (\<exists>s''. exec stop_step (es @ [Step, Step, Step, Step]) (Copy_ai, s)
                     = Some (Stopped, s'') \<and>
                   destroyed s'' = destroyed s' @ destroyed_by_caller Input ia
                                     @ destroyed_by_caller Output oa)"
  proof
    assume a: "pc' = Test_ai \<and> unshared Input ia s' \<and> unshared Output oa s'"
    with inv have "local_ptr s' Input = ia" "local_ptr s' Output = oa"
      "sole Input ia s'" "sole Output oa s'"
      by (cases ia; cases oa; simp add: stop_inv_def held_def unshared_def sole_def)+
    from stop_completes [OF this] a show
      "\<exists>s''. exec stop_step (es @ [Step, Step, Step, Step]) (Copy_ai, s)
                     = Some (Stopped, s'') \<and>
                   destroyed s'' = destroyed s' @ destroyed_by_caller Input ia
                                     @ destroyed_by_caller Output oa"
      unfolding next_step by simp
  qed
  from order state waiting alive callback progress waits_ai waits_ao waits_both completes
  show ?thesis by (intro conjI) (elim conjE, assumption)+
qed

theorem stop_releases_after_both_unique_witness:
  "g_ptr (startOutput sample_registrar ''Default''
            (startInput sample_registrar ''Default'' no_devices)) Input = Some 1 \<and>
   g_ptr (startOutput sample_registrar ''Default''
            (startInput sample_registrar ''Default'' no_devices)) Output = Some 1 \<and>
   destroyed (startOutput sample_registrar ''Default''
            (startInput sample_registrar ''Default'' no_devices)) = [] \<and>
   (\<exists>s'. exec stop_step callback_holds_output_during_stop
            (Copy_ai, startOutput sample_registrar ''Default''
                        (startInput sample_registrar ''Default'' no_devices))
          = Some (Stopped, s') \<and>
         destroyed s' = [(Input, 1, Caller), (Output, 1, Caller)]) \<and>
   (\<exists>s'. exec stop_step (take 9 callback_holds_output_during_stop)
            (Copy_ai, startOutput sample_registrar ''Default''
                        (startInput sample_registrar ''Default'' no_devices))
          = Some (Test_ai, s') \<and>
         destroyed s' = [] \<and> use_count s' (Input, 1) = 1 \<and> use_count s' (Output, 1) = 2 \<and>
         local_ptr s' Input = Some 1 \<and> local_ptr s' Output = Some 1 \<and>
         exec stop_step (take 9 callback_holds_output_during_stop @ [Step, Step])
            (Copy_ai, startOutput sample_registrar ''Default''
                        (startInput sample_registrar ''Default'' no_devices))
          = Some (Test_ai, s')) \<and>
   g_ptr (startOutput sample_registrar ''Default'' no_devices) Input = None \<and>
   g_ptr (startOutput sample_registrar ''Default'' no_devices) Output = Some 1 \<and>
   (\<exists>s'. exec stop_step [Step, Step, Step, Step, Step, Step, Step, Step]
            (Copy_ai, startOutput sample_registrar ''Default'' no_devices)
          = Some (Stopped, s') \<and>
         destroyed s' = [(Output, 1, Caller)] \<and> use_count s' (Output, 1) = 0 \<and>
         g_ptr s' Output = None)"
proof -
  let ?s = "startOutput sample_registrar ''Default''
              (startInput sample_registrar ''Default'' no_devices)"
  let ?t = "startOutput sample_registrar ''Default'' no_devices"
  have init: "g_ptr ?s Input = Some 1" "g_ptr ?s Output = Some 1"
    "held Input (Some 1) 1 ?s" "held Output (Some 1) 1 ?s"
    by (simp_all add: startOutput_def startInput_def assign_global_def reset_ptr_def
          no_devices_def sample_registrar_def held_def)
  have fresh: "destroyed ?s = []"
    by (simp add: startOutput_def startInput_def assign_global_def reset_ptr_def
          no_devices_def sample_registrar_def)
  have init': "g_ptr ?t Input = None" "g_ptr ?t Output = Some 1"
    "held Input None 1 ?t" "held Output (Some 1) 1 ?t"
    by (simp_all add: startOutput_def assign_global_def reset_ptr_def
          no_devices_def sample_registrar_def held_def)
  obtain pc1 s1 where run1:
      "exec stop_step callback_holds_output_during_stop (Copy_ai, ?s) = Some (pc1, s1)"
    and end1: "pc1 = Stopped" "destroyed s1 = [(Input, 1, Caller), (Output, 1, Caller)]"
    by (simp add: callback_holds_output_during_stop_def event_step_def
          startOutput_def startInput_def assign_global_def reset_ptr_def copy_ptr_def
          no_devices_def sample_registrar_def Let_def)
  obtain pc2 s2 where run2:
      "exec stop_step (take 9 callback_holds_output_during_stop) (Copy_ai, ?s) = Some (pc2, s2)"
    and end2: "pc2 = Test_ai" "destroyed s2 = []"
      "use_count s2 (Input, 1) = 1" "use_count s2 (Output, 1) = 2"
      "elsewhere s2 (Input, 1) = 0" "elsewhere s2 (Output, 1) = 1"
    by (simp add: callback_holds_output_during_stop_def event_step_def
          startOutput_def startInput_def assign_global_def reset_ptr_def copy_ptr_def
          no_devices_def sample_registrar_def Let_def)
  obtain pc3 s3 where run3:
      "exec stop_step [Step, Step, Step, Step, Step, Step, Step, Step] (Copy_ai, ?t) = Some (pc3, s3)"
    and end3: "pc3 = Stopped" "destroyed s3 = [(Output, 1, Caller)]"
    by (simp add: event_step_def
          startOutput_def assign_global_def reset_ptr_def copy_ptr_def
          no_devices_def sample_registrar_def Let_def)
  note at_loop = stop_releases_after_both_unique [OF init run2]
  note at_end = stop_releases_after_both_unique [OF init' run3]
  from at_loop end2(1)
  have locals: "local_ptr s2 Input = Some 1 \<and> local_ptr s2 Output = Some 1" by blast
  have shared: "unshared Input (Some 1) s2 \<and> \<not> unshared Output (Some 1) s2"
    using end2 by (simp add: unshared_def)
  from at_loop end2(1) shared
  have again: "exec stop_step (take 9 callback_holds_output_during_stop @ [Step, Step]) (Copy_ai, ?s)
                 = Some (Test_ai, s2)" by blast
  from at_end end3(1) have "gone Output (Some 1) s3" by blast
  then have count3: "use_count s3 (Output, 1) = 0" by (simp add: gone_def)
  from at_end end3(1) have global3: "g_ptr s3 Output = None" by blast
  from init(1,2) fresh run1 end1 run2 end2 locals again init'(1,2) run3 end3 count3 global3
  show ?thesis by auto
qed

end
